theory Spec2Isabelle
  imports Complex_Main "HOL-Library.Monad_Syntax"
begin

unbundle bit_operations_syntax

section \<open>Floating-point values\<close>

text \<open>
  The compressor of \<^verbatim>\<open>src/mason/audio/CompressorNode.cpp\<close> computes with C++ \<^verbatim>\<open>float\<close>.
  A value of that type is modelled as a finite real number, one of the two infinities, or
  NaN. The arithmetic follows IEEE 754 and Annex F of the C standard on the special
  values (what is NaN, what is infinite, the sign of an infinity, comparisons with NaN);
  on finite values it is the exact real operation. Rounding, overflow of finite results
  and the sign of zero are not part of the model, and a decimal literal such as
  \<^verbatim>\<open>0.05f\<close> stands for its decimal value.
\<close>

datatype flt = Fin real | PInf | NInf | NaN

fun isnan :: "flt \<Rightarrow> bool" where
  "isnan NaN = True"
| "isnan _ = False"

fun isinf :: "flt \<Rightarrow> bool" where
  "isinf PInf = True"
| "isinf NInf = True"
| "isinf _ = False"

text \<open>The infinity (or NaN) that a product or quotient with one infinite or zero operand
  takes from the sign \<open>s\<close> of the other.\<close>

definition inf_of_sign :: "real \<Rightarrow> flt" where
  "inf_of_sign s = (if 0 < s then PInf else if s < 0 then NInf else NaN)"

fun fneg :: "flt \<Rightarrow> flt" where
  "fneg (Fin x) = Fin (- x)"
| "fneg PInf = NInf"
| "fneg NInf = PInf"
| "fneg NaN = NaN"

fun fadd :: "flt \<Rightarrow> flt \<Rightarrow> flt" where
  "fadd (Fin x) (Fin y) = Fin (x + y)"
| "fadd (Fin x) PInf = PInf"
| "fadd (Fin x) NInf = NInf"
| "fadd PInf (Fin y) = PInf"
| "fadd PInf PInf = PInf"
| "fadd PInf NInf = NaN"
| "fadd NInf (Fin y) = NInf"
| "fadd NInf PInf = NaN"
| "fadd NInf NInf = NInf"
| "fadd NaN b = NaN"
| "fadd a NaN = NaN"

definition fsub :: "flt \<Rightarrow> flt \<Rightarrow> flt" where
  "fsub a b = fadd a (fneg b)"

fun fmul :: "flt \<Rightarrow> flt \<Rightarrow> flt" where
  "fmul (Fin x) (Fin y) = Fin (x * y)"
| "fmul (Fin x) PInf = inf_of_sign x"
| "fmul (Fin x) NInf = inf_of_sign (- x)"
| "fmul PInf (Fin y) = inf_of_sign y"
| "fmul PInf PInf = PInf"
| "fmul PInf NInf = NInf"
| "fmul NInf (Fin y) = inf_of_sign (- y)"
| "fmul NInf PInf = NInf"
| "fmul NInf NInf = PInf"
| "fmul NaN b = NaN"
| "fmul a NaN = NaN"

fun fdiv :: "flt \<Rightarrow> flt \<Rightarrow> flt" where
  "fdiv (Fin x) (Fin y) = (if y = 0 then inf_of_sign x else Fin (x / y))"
| "fdiv (Fin x) PInf = Fin 0"
| "fdiv (Fin x) NInf = Fin 0"
| "fdiv PInf (Fin y) = (if 0 \<le> y then PInf else NInf)"
| "fdiv NInf (Fin y) = (if 0 \<le> y then NInf else PInf)"
| "fdiv PInf PInf = NaN"
| "fdiv PInf NInf = NaN"
| "fdiv NInf PInf = NaN"
| "fdiv NInf NInf = NaN"
| "fdiv NaN b = NaN"
| "fdiv a NaN = NaN"

text \<open>The comparison operators: every comparison with NaN is false, except \<^verbatim>\<open>!=\<close>.\<close>

fun flt_lt :: "flt \<Rightarrow> flt \<Rightarrow> bool" where
  "flt_lt (Fin x) (Fin y) = (x < y)"
| "flt_lt (Fin x) PInf = True"
| "flt_lt NInf (Fin y) = True"
| "flt_lt NInf PInf = True"
| "flt_lt _ _ = False"

fun flt_le :: "flt \<Rightarrow> flt \<Rightarrow> bool" where
  "flt_le (Fin x) (Fin y) = (x \<le> y)"
| "flt_le (Fin x) PInf = True"
| "flt_le (Fin x) NInf = False"
| "flt_le (Fin x) NaN = False"
| "flt_le PInf b = (b = PInf)"
| "flt_le NInf b = (\<not> isnan b)"
| "flt_le NaN b = False"

definition flt_gt :: "flt \<Rightarrow> flt \<Rightarrow> bool" where
  "flt_gt a b = flt_lt b a"

definition flt_eq :: "flt \<Rightarrow> flt \<Rightarrow> bool" where
  "flt_eq a b = (\<not> isnan a \<and> \<not> isnan b \<and> a = b)"

definition flt_ne :: "flt \<Rightarrow> flt \<Rightarrow> bool" where
  "flt_ne a b = (\<not> flt_eq a b)"

text \<open>\<^verbatim>\<open>std::max(a, b)\<close> is \<^verbatim>\<open>(a < b) ? b : a\<close> and \<^verbatim>\<open>std::min(a, b)\<close> is
  \<^verbatim>\<open>(b < a) ? b : a\<close>: with a NaN operand both return the first argument.\<close>

definition std_max :: "flt \<Rightarrow> flt \<Rightarrow> flt" where
  "std_max a b = (if flt_lt a b then b else a)"

definition std_min :: "flt \<Rightarrow> flt \<Rightarrow> flt" where
  "std_min a b = (if flt_lt b a then b else a)"

subsection \<open>The functions of the C mathematical library\<close>

fun expf :: "flt \<Rightarrow> flt" where
  "expf (Fin x) = Fin (exp x)"
| "expf PInf = PInf"
| "expf NInf = Fin 0"
| "expf NaN = NaN"

fun log10f :: "flt \<Rightarrow> flt" where
  "log10f (Fin x) = (if x < 0 then NaN else if x = 0 then NInf else Fin (log 10 x))"
| "log10f PInf = PInf"
| "log10f NInf = NaN"
| "log10f NaN = NaN"

fun sqrtf :: "flt \<Rightarrow> flt" where
  "sqrtf (Fin x) = (if x < 0 then NaN else Fin (sqrt x))"
| "sqrtf PInf = PInf"
| "sqrtf NInf = NaN"
| "sqrtf NaN = NaN"

fun asinf :: "flt \<Rightarrow> flt" where
  "asinf (Fin x) = (if \<bar>x\<bar> \<le> 1 then Fin (arcsin x) else NaN)"
| "asinf _ = NaN"

fun sinf :: "flt \<Rightarrow> flt" where
  "sinf (Fin x) = Fin (sin x)"
| "sinf _ = NaN"

definition is_integer :: "real \<Rightarrow> bool" where
  "is_integer y = (of_int \<lfloor>y\<rfloor> = y)"

definition is_odd_integer :: "real \<Rightarrow> bool" where
  "is_odd_integer y = (is_integer y \<and> odd \<lfloor>y\<rfloor>)"

text \<open>\<^verbatim>\<open>powf(x, y)\<close> with the special cases of Annex F.10.4.4 of the C standard, in its
  order: a zero exponent and a base of one give 1 even for a NaN operand.\<close>

fun powf :: "flt \<Rightarrow> flt \<Rightarrow> flt" where
  "powf x (Fin y) =
     (if y = 0 then Fin 1
      else case x of
        NaN \<Rightarrow> NaN
      | PInf \<Rightarrow> (if y < 0 then Fin 0 else PInf)
      | NInf \<Rightarrow> (if y < 0 then Fin 0 else if is_odd_integer y then NInf else PInf)
      | Fin b \<Rightarrow>
          (if b = 1 then Fin 1
           else if b = 0 then (if y < 0 then PInf else Fin 0)
           else if 0 < b then Fin (b powr y)
           else if is_integer y
             then Fin ((if is_odd_integer y then - 1 else 1) * (\<bar>b\<bar> powr y))
           else NaN))"
| "powf x PInf =
     (case x of
        NaN \<Rightarrow> NaN
      | PInf \<Rightarrow> PInf
      | NInf \<Rightarrow> PInf
      | Fin b \<Rightarrow> (if \<bar>b\<bar> = 1 then Fin 1 else if \<bar>b\<bar> < 1 then Fin 0 else PInf))"
| "powf x NInf =
     (case x of
        NaN \<Rightarrow> NaN
      | PInf \<Rightarrow> Fin 0
      | NInf \<Rightarrow> Fin 0
      | Fin b \<Rightarrow> (if \<bar>b\<bar> = 1 then Fin 1 else if \<bar>b\<bar> < 1 then PInf else Fin 0))"
| "powf x NaN = (if x = Fin 1 then Fin 1 else NaN)"

text \<open>The conversion of a \<^verbatim>\<open>float\<close> to \<^verbatim>\<open>unsigned\<close> (32 bits) truncates towards zero;
  it is undefined, here \<open>None\<close>, when the truncated value is not representable.\<close>

fun to_unsigned :: "flt \<Rightarrow> nat option" where
  "to_unsigned (Fin x) = (if - 1 < x \<and> x < 2 ^ 32 then Some (nat \<lfloor>x\<rfloor>) else None)"
| "to_unsigned _ = None"

definition of_size_t :: "nat \<Rightarrow> flt" where
  "of_size_t n = Fin (real n)"

section \<open>Decibels and time constants\<close>

definition decibelsToLinear :: "flt \<Rightarrow> flt" where
  "decibelsToLinear decibels = powf (Fin 10) (fmul (Fin 0.05) decibels)"

text \<open>\<^verbatim>\<open>CI_ASSERT( linear )\<close> is a debugging assertion of the Cinder library; it is compiled
  out of a release build, which is the configuration modelled: a zero argument gives minus
  infinity, as \<^verbatim>\<open>process\<close> expects where it tests \<^verbatim>\<open>std::isinf\<close>.\<close>

definition linearToDecibels :: "flt \<Rightarrow> flt" where
  "linearToDecibels lin = fmul (Fin 20) (log10f lin)"

definition discreteTimeConstantForSampleRate :: "flt \<Rightarrow> flt \<Rightarrow> flt" where
  "discreteTimeConstantForSampleRate timeConstant sampleRate =
     fsub (Fin 1) (expf (fdiv (Fin (- 1)) (fmul sampleRate timeConstant)))"

section \<open>The compressor's state\<close>

definition MaxPreDelayFrames :: nat where
  "MaxPreDelayFrames = 1024"

definition MaxPreDelayFramesMask :: nat where
  "MaxPreDelayFramesMask = MaxPreDelayFrames - 1"

definition DefaultPreDelayFrames :: nat where
  "DefaultPreDelayFrames = 256"

text \<open>The member variables of \<^verbatim>\<open>CompressorNode\<close>. \<open>sampleRate\<close> is what
  \<^verbatim>\<open>getSampleRate()\<close> returns (a \<^verbatim>\<open>size_t\<close> of the audio context), and the pre-delay buffer
  is a list of channels, each a list of frames.\<close>

record compressor =
  sampleRate :: nat
  mPreDelayBuffer :: "flt list list"
  m_lastPreDelayFrames :: nat
  m_preDelayReadIndex :: nat
  m_preDelayWriteIndex :: nat
  m_ratio :: flt
  m_slope :: flt
  m_linearThreshold :: flt
  m_dbThreshold :: flt
  m_dbKnee :: flt
  m_kneeThreshold :: flt
  m_kneeThresholdDb :: flt
  m_ykneeThresholdDb :: flt
  m_K :: flt
  m_detectorAverage :: flt
  m_compressorGain :: flt
  m_meteringGain :: flt
  m_maxAttackCompressionDiffDb :: flt
  m_meteringReleaseK :: flt

definition zero_buffer :: "flt list list \<Rightarrow> flt list list" where
  "zero_buffer b = map (map (\<lambda>_. Fin 0)) b"

definition reset :: "compressor \<Rightarrow> compressor" where
  "reset st = st\<lparr>
     m_detectorAverage := Fin 0,
     m_compressorGain := Fin 1,
     m_meteringGain := Fin 1,
     mPreDelayBuffer := zero_buffer (mPreDelayBuffer st),
     m_preDelayReadIndex := 0,
     m_preDelayWriteIndex := DefaultPreDelayFrames,
     m_maxAttackCompressionDiffDb := Fin (- 1)\<rparr>"

text \<open>\<^verbatim>\<open>initialize()\<close> assigns every member: the fields before the call do not matter, so
  the model builds the state from the sample rate and the channel count of the node.\<close>

definition initialize :: "nat \<Rightarrow> nat \<Rightarrow> compressor" where
  "initialize sr numChannels =
     (reset \<lparr>
        sampleRate = sr,
        mPreDelayBuffer = replicate numChannels (replicate MaxPreDelayFrames (Fin 0)),
        m_lastPreDelayFrames = DefaultPreDelayFrames,
        m_preDelayReadIndex = 0,
        m_preDelayWriteIndex = DefaultPreDelayFrames,
        m_ratio = Fin (- 1),
        m_slope = Fin (- 1),
        m_linearThreshold = Fin (- 1),
        m_dbThreshold = Fin (- 1),
        m_dbKnee = Fin (- 1),
        m_kneeThreshold = Fin (- 1),
        m_kneeThresholdDb = Fin (- 1),
        m_ykneeThresholdDb = Fin (- 1),
        m_K = Fin (- 1),
        m_detectorAverage = Fin 0,
        m_compressorGain = Fin 1,
        m_meteringGain = Fin 1,
        m_maxAttackCompressionDiffDb = Fin (- 1),
        m_meteringReleaseK = Fin 0\<rparr>)
     \<lparr>m_meteringReleaseK :=
        discreteTimeConstantForSampleRate (Fin 0.325) (of_size_t sr)\<rparr>"

text \<open>\<^verbatim>\<open>setPreDelayTime\<close>: the product is converted to \<^verbatim>\<open>unsigned\<close>, which is undefined
  (\<open>None\<close>) outside the range of that type.\<close>

definition setPreDelayTime :: "flt \<Rightarrow> compressor \<Rightarrow> compressor option" where
  "setPreDelayTime preDelayTime st =
     (case to_unsigned (fmul preDelayTime (of_size_t (sampleRate st))) of
        None \<Rightarrow> None
      | Some n \<Rightarrow>
          (let preDelayFrames =
                 (if n > MaxPreDelayFrames - 1 then MaxPreDelayFrames - 1 else n)
           in Some (if m_lastPreDelayFrames st \<noteq> preDelayFrames
                    then st\<lparr>m_lastPreDelayFrames := preDelayFrames,
                            mPreDelayBuffer := zero_buffer (mPreDelayBuffer st),
                            m_preDelayReadIndex := 0,
                            m_preDelayWriteIndex := preDelayFrames\<rparr>
                    else st)))"

section \<open>The static compression curve\<close>

definition kneeCurve :: "compressor \<Rightarrow> flt \<Rightarrow> flt \<Rightarrow> flt" where
  "kneeCurve st x k =
     (if flt_lt x (m_linearThreshold st) then x
      else fadd (m_linearThreshold st)
             (fdiv (fsub (Fin 1) (expf (fmul (fneg k) (fsub x (m_linearThreshold st))))) k))"

definition saturate :: "compressor \<Rightarrow> flt \<Rightarrow> flt \<Rightarrow> flt" where
  "saturate st x k =
     (if flt_lt x (m_kneeThreshold st) then kneeCurve st x k
      else
        (let xDb = linearToDecibels x;
             yDb = fadd (m_ykneeThresholdDb st)
                     (fmul (m_slope st) (fsub xDb (m_kneeThresholdDb st)))
         in decibelsToLinear yDb))"

definition slopeAt :: "compressor \<Rightarrow> flt \<Rightarrow> flt \<Rightarrow> flt" where
  "slopeAt st x k =
     (if flt_lt x (m_linearThreshold st) then Fin 1
      else
        (let x2 = fmul x (Fin 1.001);
             xDb = linearToDecibels x;
             x2Db = linearToDecibels x2;
             yDb = linearToDecibels (kneeCurve st x k);
             y2Db = linearToDecibels (kneeCurve st x2 k);
             m = fdiv (fsub y2Db yDb) (fsub x2Db xDb)
         in m))"

text \<open>One iteration of the loop of \<^verbatim>\<open>kAtSlope\<close> on its variables \<open>(minK, maxK, k)\<close>.\<close>

definition kAtSlope_body :: "compressor \<Rightarrow> flt \<Rightarrow> flt \<Rightarrow> flt \<times> flt \<times> flt \<Rightarrow> flt \<times> flt \<times> flt" where
  "kAtSlope_body st x desiredSlope v =
     (case v of (minK, maxK, k) \<Rightarrow>
        (let slope = slopeAt st x k;
             maxK' = (if flt_lt slope desiredSlope then k else maxK);
             minK' = (if flt_lt slope desiredSlope then minK else k)
         in (minK', maxK', sqrtf (fmul minK' maxK'))))"

text \<open>The loop \<^verbatim>\<open>for( int i = 0; i < 15; ++i )\<close>. Beside the variables it returns the list
  of their values after each execution of the body, in order: the list is not part of
  the program, it records how often the body ran and what it computed.\<close>

function kAtSlope_loop ::
  "compressor \<Rightarrow> flt \<Rightarrow> flt \<Rightarrow> int \<Rightarrow> flt \<times> flt \<times> flt \<Rightarrow> (flt \<times> flt \<times> flt) list
     \<Rightarrow> (flt \<times> flt \<times> flt) \<times> (flt \<times> flt \<times> flt) list" where
  "kAtSlope_loop st x desiredSlope i v tr =
     (if i < 15
      then (let v' = kAtSlope_body st x desiredSlope v
            in kAtSlope_loop st x desiredSlope (i + 1) v' (tr @ [v']))
      else (v, tr))"
  by pat_completeness auto
termination
  by (relation "measure (\<lambda>(st, x, desiredSlope, i, v, tr). nat (15 - i))") auto

definition kAtSlope_run ::
  "compressor \<Rightarrow> flt \<Rightarrow> (flt \<times> flt \<times> flt) \<times> (flt \<times> flt \<times> flt) list" where
  "kAtSlope_run st desiredSlope =
     (let xDb = fadd (m_dbThreshold st) (m_dbKnee st);
          x = decibelsToLinear xDb
      in kAtSlope_loop st x desiredSlope 0 (Fin 0.1, Fin 10000, Fin 5) [])"

definition kAtSlope :: "compressor \<Rightarrow> flt \<Rightarrow> flt" where
  "kAtSlope st desiredSlope = (case fst (kAtSlope_run st desiredSlope) of (minK, maxK, k) \<Rightarrow> k)"

definition kAtSlope_iterations :: "compressor \<Rightarrow> flt \<Rightarrow> (flt \<times> flt \<times> flt) list" where
  "kAtSlope_iterations st desiredSlope = snd (kAtSlope_run st desiredSlope)"

text \<open>The test of \<^verbatim>\<open>updateStaticCurveParameters\<close>, with the \<^verbatim>\<open>!=\<close> of \<^verbatim>\<open>float\<close>.\<close>

definition curve_parameters_changed :: "flt \<Rightarrow> flt \<Rightarrow> flt \<Rightarrow> compressor \<Rightarrow> bool" where
  "curve_parameters_changed dbThreshold dbKnee ratio st =
     (flt_ne dbThreshold (m_dbThreshold st) \<or> flt_ne dbKnee (m_dbKnee st)
        \<or> flt_ne ratio (m_ratio st))"

text \<open>\<^verbatim>\<open>updateStaticCurveParameters\<close> returns the value of \<^verbatim>\<open>m_K\<close> and the new state; the
  second component is the number of times the body of the loop of \<^verbatim>\<open>kAtSlope\<close> ran
  during the call.\<close>

definition updateStaticCurveParameters ::
  "flt \<Rightarrow> flt \<Rightarrow> flt \<Rightarrow> compressor \<Rightarrow> flt \<times> nat \<times> compressor" where
  "updateStaticCurveParameters dbThreshold dbKnee ratio st =
     (if curve_parameters_changed dbThreshold dbKnee ratio st
      then
        (let st1 = st\<lparr>m_dbThreshold := dbThreshold,
                      m_linearThreshold := decibelsToLinear dbThreshold,
                      m_dbKnee := dbKnee\<rparr>;
             st2 = st1\<lparr>m_ratio := ratio\<rparr>;
             st3 = st2\<lparr>m_slope := fdiv (Fin 1) (m_ratio st2)\<rparr>;
             k = kAtSlope st3 (fdiv (Fin 1) (m_ratio st3));
             st4 = st3\<lparr>m_kneeThresholdDb := fadd dbThreshold dbKnee\<rparr>;
             st5 = st4\<lparr>m_kneeThreshold := decibelsToLinear (m_kneeThresholdDb st4)\<rparr>;
             st6 = st5\<lparr>m_ykneeThresholdDb :=
                          linearToDecibels (kneeCurve st5 (m_kneeThreshold st5) k)\<rparr>;
             st7 = st6\<lparr>m_K := k\<rparr>
         in (m_K st7, length (kAtSlope_iterations st3 (fdiv (Fin 1) (m_ratio st3))), st7))
      else (m_K st, 0, st))"

section \<open>Processing a block\<close>

text \<open>The values of the five parameters after \<^verbatim>\<open>eval()\<close>, and the buffer handed to
  \<^verbatim>\<open>process\<close>: its frame count and its channels.\<close>

record params =
  paramThreshold :: flt
  paramRatio :: flt
  paramKnee :: flt
  paramAttackTime :: flt
  paramReleaseTime :: flt

record audio_buffer =
  bufNumFrames :: nat
  bufChannels :: "flt list list"

text \<open>The local variables that \<^verbatim>\<open>process\<close> computes once per block and reads in its loops.\<close>

record block_locals =
  blk_numberOfChannels :: nat
  blk_k :: flt
  blk_masterLinearGain :: flt
  blk_attackFrames :: flt
  blk_satReleaseFrames :: flt
  blk_dryMix :: flt
  blk_wetMix :: flt
  blk_kA :: flt
  blk_kB :: flt
  blk_kC :: flt
  blk_kD :: flt
  blk_kE :: flt

definition piOverTwoFloat :: flt where
  "piOverTwoFloat = Fin (pi / 2)"

text \<open>\<^verbatim>\<open>if( std::isnan( v ) ) v = d; if( std::isinf( v ) ) v = d;\<close>\<close>

definition fix_gremlins :: "flt \<Rightarrow> flt \<Rightarrow> flt" where
  "fix_gremlins d v = (let v1 = (if isnan v then d else v) in if isinf v1 then d else v1)"

text \<open>The makeup gain, the attack frames and the coefficients of the release polynomial,
  as \<^verbatim>\<open>process\<close> computes them before its loops.\<close>

definition masterLinearGain_of :: "compressor \<Rightarrow> flt \<Rightarrow> flt" where
  "masterLinearGain_of st k =
     (let dbPostGain = Fin 0;
          fullRangeGain = saturate st (Fin 1) k;
          fullRangeMakeupGain = powf (fdiv (Fin 1) fullRangeGain) (Fin 0.6)
      in fmul (decibelsToLinear dbPostGain) fullRangeMakeupGain)"

definition attackFrames_of :: "flt \<Rightarrow> flt \<Rightarrow> flt" where
  "attackFrames_of attackTime sRate =
     (let attackTime1 = std_max (Fin 0.001) attackTime in fmul attackTime1 sRate)"

definition release_kA :: "flt \<Rightarrow> flt \<Rightarrow> flt \<Rightarrow> flt \<Rightarrow> flt" where
  "release_kA y1 y2 y3 y4 =
     fadd (fsub (fadd (fmul (Fin 0.9999999999999998) y1)
                      (fmul (Fin (18432219684323923 / 10 ^ 32)) y2))
                (fmul (Fin (19373394351676423 / 10 ^ 32)) y3))
          (fmul (Fin (8824516011816245 / 10 ^ 33)) y4)"

definition release_kB :: "flt \<Rightarrow> flt \<Rightarrow> flt \<Rightarrow> flt \<Rightarrow> flt" where
  "release_kB y1 y2 y3 y4 =
     fadd (fsub (fadd (fmul (Fin (- 1.5788320352845888)) y1)
                      (fmul (Fin 2.3305837032074286) y2))
                (fmul (Fin 0.9141194204840429) y3))
          (fmul (Fin 0.1623677525612032) y4)"

definition release_kC :: "flt \<Rightarrow> flt \<Rightarrow> flt \<Rightarrow> flt \<Rightarrow> flt" where
  "release_kC y1 y2 y3 y4 =
     fsub (fadd (fsub (fmul (Fin 0.5334142869106424) y1)
                      (fmul (Fin 1.272736789213631) y2))
                (fmul (Fin 0.9258856042207512) y3))
          (fmul (Fin 0.18656310191776226) y4)"

definition release_kD :: "flt \<Rightarrow> flt \<Rightarrow> flt \<Rightarrow> flt \<Rightarrow> flt" where
  "release_kD y1 y2 y3 y4 =
     fsub (fadd (fsub (fmul (Fin 0.08783463138207234) y1)
                      (fmul (Fin 0.1694162967925622) y2))
                (fmul (Fin 0.08588057951595272) y3))
          (fmul (Fin 0.00429891410546283) y4)"

definition release_kE :: "flt \<Rightarrow> flt \<Rightarrow> flt \<Rightarrow> flt \<Rightarrow> flt" where
  "release_kE y1 y2 y3 y4 =
     fadd (fsub (fadd (fmul (Fin (- 0.042416883008123074)) y1)
                      (fmul (Fin 0.1115693827987602) y2))
                (fmul (Fin 0.09764676325265872) y3))
          (fmul (Fin 0.028494263462021576) y4)"

text \<open>The part of \<^verbatim>\<open>process\<close> before \<^verbatim>\<open>setPreDelayTime\<close>: the block's locals and the state
  after \<^verbatim>\<open>updateStaticCurveParameters\<close>.\<close>

definition block_setup :: "params \<Rightarrow> audio_buffer \<Rightarrow> compressor \<Rightarrow> block_locals \<times> compressor" where
  "block_setup p buffer st =
     (let numberOfChannels = length (bufChannels buffer) mod 2 ^ 32;
          effectBlend = Fin 1;
          releaseZone1 = Fin 0.09;
          releaseZone2 = Fin 0.16;
          releaseZone3 = Fin 0.42;
          releaseZone4 = Fin 0.98;
          sRate = of_size_t (sampleRate st);
          upd = updateStaticCurveParameters (paramThreshold p) (paramKnee p) (paramRatio p) st;
          k = fst upd;
          st1 = snd (snd upd);
          releaseFrames = fmul sRate (paramReleaseTime p);
          satReleaseTime = Fin 0.0025;
          y1 = fmul releaseFrames releaseZone1;
          y2 = fmul releaseFrames releaseZone2;
          y3 = fmul releaseFrames releaseZone3;
          y4 = fmul releaseFrames releaseZone4
      in (\<lparr>blk_numberOfChannels = numberOfChannels,
            blk_k = k,
            blk_masterLinearGain = masterLinearGain_of st1 k,
            blk_attackFrames = attackFrames_of (paramAttackTime p) sRate,
            blk_satReleaseFrames = fmul satReleaseTime sRate,
            blk_dryMix = fsub (Fin 1) effectBlend,
            blk_wetMix = effectBlend,
            blk_kA = release_kA y1 y2 y3 y4,
            blk_kB = release_kB y1 y2 y3 y4,
            blk_kC = release_kC y1 y2 y3 y4,
            blk_kD = release_kD y1 y2 y3 y4,
            blk_kE = release_kE y1 y2 y3 y4\<rparr>,
          st1))"

subsection \<open>The envelope rate of a division of 32 frames\<close>

definition release_envelopeRate :: "block_locals \<Rightarrow> flt \<Rightarrow> flt" where
  "release_envelopeRate c compressionDiffDb =
     (let diffDb = fix_gremlins (Fin (- 1)) compressionDiffDb;
          x0 = std_max (Fin (- 12)) diffDb;
          x1 = std_min (Fin 0) x0;
          x = fmul (Fin 0.25) (fadd x1 (Fin 12));
          x2 = fmul x x;
          x3 = fmul x2 x;
          x4 = fmul x2 x2;
          releaseFrames =
            fadd (fadd (fadd (fadd (blk_kA c) (fmul (blk_kB c) x)) (fmul (blk_kC c) x2))
                       (fmul (blk_kD c) x3))
                 (fmul (blk_kE c) x4);
          spacingDb = Fin 5;
          dbPerFrame = fdiv spacingDb releaseFrames
      in decibelsToLinear dbPerFrame)"

definition attack_maxDiffDb :: "flt \<Rightarrow> flt \<Rightarrow> flt" where
  "attack_maxDiffDb maxAttackCompressionDiffDb compressionDiffDb =
     (let diffDb = fix_gremlins (Fin 1) compressionDiffDb
      in if flt_eq maxAttackCompressionDiffDb (Fin (- 1))
            \<or> flt_lt maxAttackCompressionDiffDb diffDb
         then diffDb else maxAttackCompressionDiffDb)"

definition attack_envelopeRate :: "block_locals \<Rightarrow> flt \<Rightarrow> flt" where
  "attack_envelopeRate c maxAttackCompressionDiffDb =
     (let effAttenDiffDb = std_max (Fin 0.5) maxAttackCompressionDiffDb;
          x = fdiv (Fin 0.25) effAttenDiffDb
      in fsub (Fin 1) (powf x (fdiv (Fin 1) (blk_attackFrames c))))"

text \<open>The head of a division: the state with the detector average repaired and the
  attack maximum updated, the pre-warped desired gain and the envelope rate.\<close>

definition envelope_decision :: "block_locals \<Rightarrow> compressor \<Rightarrow> compressor \<times> flt \<times> flt" where
  "envelope_decision c st =
     (let st1 = st\<lparr>m_detectorAverage := fix_gremlins (Fin 1) (m_detectorAverage st)\<rparr>;
          desiredGain = m_detectorAverage st1;
          scaledDesiredGain = fdiv (asinf desiredGain) piOverTwoFloat;
          isReleasing = flt_gt scaledDesiredGain (m_compressorGain st1);
          compressionDiffDb =
            linearToDecibels (fdiv (m_compressorGain st1) scaledDesiredGain)
      in if isReleasing
         then (st1\<lparr>m_maxAttackCompressionDiffDb := Fin (- 1)\<rparr>, scaledDesiredGain,
               release_envelopeRate c compressionDiffDb)
         else (let st2 = st1\<lparr>m_maxAttackCompressionDiffDb :=
                               attack_maxDiffDb (m_maxAttackCompressionDiffDb st1)
                                 compressionDiffDb\<rparr>
               in (st2, scaledDesiredGain,
                   attack_envelopeRate c (m_maxAttackCompressionDiffDb st2))))"

subsection \<open>The inner loop\<close>

text \<open>The variables of the inner loop: the locals of \<^verbatim>\<open>process\<close> that it updates, the
  member \<^verbatim>\<open>m_meteringGain\<close>, the pre-delay buffer and the channels of the processed
  buffer.\<close>

record sample_state =
  frameIndex :: nat
  preDelayReadIndex :: nat
  preDelayWriteIndex :: nat
  detectorAverage :: flt
  compressorGain :: flt
  meteringGain :: flt
  delayLine :: "flt list list"
  samples :: "flt list list"

definition fabs_src :: "flt \<Rightarrow> flt" where
  "fabs_src v = (if flt_gt v (Fin 0) then v else fneg v)"

text \<open>The first loop over the channels, for channel \<open>i\<close>: the input frame is stored in
  the pre-delay buffer at the write index and the largest magnitude is kept. An access
  outside a channel's storage is undefined: \<open>None\<close>.\<close>

definition predelay_write_channel ::
  "nat \<Rightarrow> nat \<Rightarrow> flt list list \<Rightarrow> nat \<Rightarrow> (flt list list \<times> flt) option
     \<Rightarrow> (flt list list \<times> flt) option" where
  "predelay_write_channel frame w buf i acc =
     (case acc of
        None \<Rightarrow> None
      | Some (delay, compressorInput) \<Rightarrow>
          (if i < length buf \<and> frame < length (buf ! i)
                \<and> i < length delay \<and> w < length (delay ! i)
           then
             (let undelayedSource = buf ! i ! frame;
                  delay' = delay[i := (delay ! i)[w := undelayedSource]];
                  absUndelayedSource = fabs_src undelayedSource
              in Some (delay',
                       if flt_lt compressorInput absUndelayedSource
                       then absUndelayedSource else compressorInput))
           else None))"

definition predelay_write ::
  "nat \<Rightarrow> nat \<Rightarrow> nat \<Rightarrow> flt list list \<Rightarrow> flt list list \<Rightarrow> (flt list list \<times> flt) option" where
  "predelay_write numberOfChannels frame w buf delay =
     fold (predelay_write_channel frame w buf) [0..<numberOfChannels] (Some (delay, Fin 0))"

text \<open>The second loop over the channels: the delayed frame times the gain.\<close>

definition apply_gain_channel ::
  "nat \<Rightarrow> nat \<Rightarrow> flt \<Rightarrow> flt list list \<Rightarrow> nat \<Rightarrow> flt list list option \<Rightarrow> flt list list option" where
  "apply_gain_channel frame r totalGain delay i acc =
     (case acc of
        None \<Rightarrow> None
      | Some buf \<Rightarrow>
          (if i < length delay \<and> r < length (delay ! i)
                \<and> i < length buf \<and> frame < length (buf ! i)
           then Some (buf[i := (buf ! i)[frame := fmul (delay ! i ! r) totalGain]])
           else None))"

definition apply_gain ::
  "nat \<Rightarrow> nat \<Rightarrow> nat \<Rightarrow> flt \<Rightarrow> flt list list \<Rightarrow> flt list list \<Rightarrow> flt list list option" where
  "apply_gain numberOfChannels frame r totalGain delay buf =
     fold (apply_gain_channel frame r totalGain delay) [0..<numberOfChannels] (Some buf)"

text \<open>The detector: the attenuation of the shaping curve at the input level, the update
  of the average before its clamp, and the update with the clamp and the repair.\<close>

definition detector_attenuation :: "compressor \<Rightarrow> flt \<Rightarrow> flt \<Rightarrow> flt" where
  "detector_attenuation st k compressorInput =
     (let scaledInput = compressorInput;
          absInput = fabs_src scaledInput;
          shapedInput = saturate st absInput k
      in if flt_le absInput (Fin 0.0001) then Fin 1 else fdiv shapedInput absInput)"

definition detector_unclamped :: "flt \<Rightarrow> flt \<Rightarrow> flt \<Rightarrow> flt" where
  "detector_unclamped satReleaseFrames attenuation average =
     (let attenuationDb = std_max (Fin 2) (fneg (linearToDecibels attenuation));
          dbPerFrame = fdiv attenuationDb satReleaseFrames;
          satReleaseRate = fsub (decibelsToLinear dbPerFrame) (Fin 1);
          isRelease = flt_gt attenuation average;
          rate = (if isRelease then satReleaseRate else Fin 1)
      in fadd average (fmul (fsub attenuation average) rate))"

definition detector_update :: "flt \<Rightarrow> flt \<Rightarrow> flt \<Rightarrow> flt" where
  "detector_update satReleaseFrames attenuation average =
     fix_gremlins (Fin 1)
       (std_min (Fin 1) (detector_unclamped satReleaseFrames attenuation average))"

text \<open>The exponential approach of the gain.\<close>

definition gain_update :: "flt \<Rightarrow> flt \<Rightarrow> flt \<Rightarrow> flt" where
  "gain_update envelopeRate scaledDesiredGain gain =
     (if flt_lt envelopeRate (Fin 1)
      then fadd gain (fmul (fsub scaledDesiredGain gain) envelopeRate)
      else std_min (Fin 1) (fmul gain envelopeRate))"

text \<open>The metering.\<close>

definition metering_update :: "flt \<Rightarrow> flt \<Rightarrow> flt \<Rightarrow> flt" where
  "metering_update meteringReleaseK postWarpCompressorGain metering =
     (let dbRealGain = fmul (Fin 20) (log10f postWarpCompressorGain)
      in if flt_lt dbRealGain metering then dbRealGain
         else fadd metering (fmul (fsub dbRealGain metering) meteringReleaseK))"

text \<open>One iteration of \<^verbatim>\<open>while( loopFrames-- )\<close>.\<close>

definition sample_step ::
  "block_locals \<Rightarrow> compressor \<Rightarrow> flt \<Rightarrow> flt \<Rightarrow> sample_state \<Rightarrow> sample_state option" where
  "sample_step c st scaledDesiredGain envelopeRate ls =
     (case predelay_write (blk_numberOfChannels c) (frameIndex ls) (preDelayWriteIndex ls)
             (samples ls) (delayLine ls) of
        None \<Rightarrow> None
      | Some (delay', compressorInput) \<Rightarrow>
          (let attenuation = detector_attenuation st (blk_k c) compressorInput;
               average' = detector_update (blk_satReleaseFrames c) attenuation
                            (detectorAverage ls);
               gain' = gain_update envelopeRate scaledDesiredGain (compressorGain ls);
               postWarpCompressorGain = sinf (fmul piOverTwoFloat gain');
               totalGain = fadd (blk_dryMix c)
                             (fmul (fmul (blk_wetMix c) (blk_masterLinearGain c))
                                postWarpCompressorGain);
               metering' = metering_update (m_meteringReleaseK st) postWarpCompressorGain
                             (meteringGain ls)
           in case apply_gain (blk_numberOfChannels c) (frameIndex ls)
                     (preDelayReadIndex ls) totalGain delay' (samples ls) of
                None \<Rightarrow> None
              | Some samples' \<Rightarrow>
                  Some \<lparr>frameIndex = frameIndex ls + 1,
                        preDelayReadIndex = (preDelayReadIndex ls + 1) AND MaxPreDelayFramesMask,
                        preDelayWriteIndex =
                          (preDelayWriteIndex ls + 1) AND MaxPreDelayFramesMask,
                        detectorAverage = average',
                        compressorGain = gain',
                        meteringGain = metering',
                        delayLine = delay',
                        samples = samples'\<rparr>))"

text \<open>What is recorded of the loop's variables after an iteration: the scalars.\<close>

record frame_obs =
  obsFrameIndex :: nat
  obsReadIndex :: nat
  obsWriteIndex :: nat
  obsDetectorAverage :: flt
  obsCompressorGain :: flt
  obsMeteringGain :: flt

definition observe :: "sample_state \<Rightarrow> frame_obs" where
  "observe ls =
     \<lparr>obsFrameIndex = frameIndex ls,
      obsReadIndex = preDelayReadIndex ls,
      obsWriteIndex = preDelayWriteIndex ls,
      obsDetectorAverage = detectorAverage ls,
      obsCompressorGain = compressorGain ls,
      obsMeteringGain = meteringGain ls\<rparr>"

text \<open>The inner loop runs its body \<open>n\<close> times (\<open>loopFrames\<close> counts down from 32). The
  second component lists what is recorded after each iteration, in order; like the list
  of \<open>kAtSlope_loop\<close> it is not part of the program, it records what the loop did.\<close>

fun sample_loop ::
  "nat \<Rightarrow> block_locals \<Rightarrow> compressor \<Rightarrow> flt \<Rightarrow> flt \<Rightarrow> sample_state
     \<Rightarrow> (sample_state \<times> frame_obs list) option" where
  "sample_loop 0 c st scaledDesiredGain envelopeRate ls = Some (ls, [])"
| "sample_loop (Suc n) c st scaledDesiredGain envelopeRate ls =
     (case sample_step c st scaledDesiredGain envelopeRate ls of
        None \<Rightarrow> None
      | Some ls1 \<Rightarrow>
          (case sample_loop n c st scaledDesiredGain envelopeRate ls1 of
             None \<Rightarrow> None
           | Some (ls2, tr) \<Rightarrow> Some (ls2, observe ls1 # tr)))"

definition nDivisionFrames :: nat where
  "nDivisionFrames = 32"

text \<open>One division: the envelope decision, the locals read from the members, 32 frames,
  and the locals written back.\<close>

definition division ::
  "block_locals \<Rightarrow> compressor \<Rightarrow> flt list list \<Rightarrow> nat
     \<Rightarrow> (compressor \<times> flt list list \<times> nat \<times> frame_obs list) option" where
  "division c st buf frame =
     (case envelope_decision c st of
        (st1, scaledDesiredGain, envelopeRate) \<Rightarrow>
          (let ls0 = \<lparr>frameIndex = frame,
                      preDelayReadIndex = m_preDelayReadIndex st1,
                      preDelayWriteIndex = m_preDelayWriteIndex st1,
                      detectorAverage = m_detectorAverage st1,
                      compressorGain = m_compressorGain st1,
                      meteringGain = m_meteringGain st1,
                      delayLine = mPreDelayBuffer st1,
                      samples = buf\<rparr>
           in case sample_loop nDivisionFrames c st1 scaledDesiredGain envelopeRate ls0 of
                None \<Rightarrow> None
              | Some (ls, tr) \<Rightarrow>
                  Some (st1\<lparr>m_preDelayReadIndex := preDelayReadIndex ls,
                            m_preDelayWriteIndex := preDelayWriteIndex ls,
                            m_detectorAverage := detectorAverage ls,
                            m_compressorGain := compressorGain ls,
                            m_meteringGain := meteringGain ls,
                            mPreDelayBuffer := delayLine ls\<rparr>,
                        samples ls, frameIndex ls, tr)))"

text \<open>The loop \<^verbatim>\<open>for (int i = 0; i < nDivisions; ++i)\<close>, whose body does not read \<open>i\<close>.\<close>

fun divisions ::
  "nat \<Rightarrow> block_locals \<Rightarrow> compressor \<Rightarrow> flt list list \<Rightarrow> nat
     \<Rightarrow> (compressor \<times> flt list list \<times> nat \<times> frame_obs list) option" where
  "divisions 0 c st buf frame = Some (st, buf, frame, [])"
| "divisions (Suc n) c st buf frame =
     (case division c st buf frame of
        None \<Rightarrow> None
      | Some (st1, buf1, frame1, tr1) \<Rightarrow>
          (case divisions n c st1 buf1 frame1 of
             None \<Rightarrow> None
           | Some (st2, buf2, frame2, tr2) \<Rightarrow> Some (st2, buf2, frame2, tr1 @ tr2)))"

text \<open>\<^verbatim>\<open>CompressorNode::process\<close>: the new state, the processed buffer, and what was
  recorded of the inner loop after each processed frame.\<close>

definition process ::
  "params \<Rightarrow> audio_buffer \<Rightarrow> compressor
     \<Rightarrow> (compressor \<times> audio_buffer \<times> frame_obs list) option" where
  "process p buffer st =
     (let framesToProcess = bufNumFrames buffer mod 2 ^ 32;
          setup = block_setup p buffer st;
          preDelayTime = Fin 0.006
      in case setPreDelayTime preDelayTime (snd setup) of
           None \<Rightarrow> None
         | Some st2 \<Rightarrow>
             (let nDivisions = framesToProcess div nDivisionFrames
              in case divisions nDivisions (fst setup) st2 (bufChannels buffer) 0 of
                   None \<Rightarrow> None
                 | Some (st3, buf3, frame3, tr) \<Rightarrow>
                     Some (st3, buffer\<lparr>bufChannels := buf3\<rparr>, tr)))"

declare kAtSlope_loop.simps [simp del]

section \<open>Predicates of the properties\<close>

text \<open>What an iteration of \<open>kAtSlope_loop\<close> leaves in \<open>(minK, maxK, k)\<close>: a bracket inside
  the initial interval from 0.1 to 10000, and \<open>k\<close> its geometric mean, inside the bracket.\<close>

definition bracket_ok :: "flt \<times> flt \<times> flt \<Rightarrow> bool" where
  "bracket_ok v =
     (case v of (minK, maxK, k) \<Rightarrow>
        flt_le (Fin 0.1) minK \<and> flt_le minK k \<and> flt_le k maxK \<and> flt_le maxK (Fin 10000)
          \<and> k = sqrtf (fmul minK maxK))"

fun bracket_fin :: "flt \<times> flt \<times> flt \<Rightarrow> bool" where
  "bracket_fin (Fin a, Fin b, Fin c) = (1 / 10 \<le> a \<and> a \<le> c \<and> c \<le> b \<and> b \<le> 10000)"
| "bracket_fin _ = False"

text \<open>The state that a recomputation of \<^verbatim>\<open>updateStaticCurveParameters\<close> leaves, each field
  written out.\<close>

definition recomputed_curve :: "flt \<Rightarrow> flt \<Rightarrow> flt \<Rightarrow> compressor \<Rightarrow> compressor" where
  "recomputed_curve dbThreshold dbKnee ratio st =
     (let st3 = st\<lparr>m_dbThreshold := dbThreshold,
                   m_linearThreshold := decibelsToLinear dbThreshold,
                   m_dbKnee := dbKnee, m_ratio := ratio, m_slope := fdiv (Fin 1) ratio\<rparr>;
          k = kAtSlope st3 (fdiv (Fin 1) ratio);
          st5 = st3\<lparr>m_kneeThresholdDb := fadd dbThreshold dbKnee,
                    m_kneeThreshold := decibelsToLinear (fadd dbThreshold dbKnee)\<rparr>
      in st5\<lparr>m_ykneeThresholdDb :=
                linearToDecibels (kneeCurve st5 (decibelsToLinear (fadd dbThreshold dbKnee)) k),
              m_K := k\<rparr>)"

text \<open>The cached thresholds belong to the cached parameters, or the cache still holds the
  value \<open>-1\<close> that \<^verbatim>\<open>initialize\<close> stores in it.\<close>

definition curve_cache_ok :: "compressor \<Rightarrow> bool" where
  "curve_cache_ok st =
     ((m_linearThreshold st = decibelsToLinear (m_dbThreshold st)
        \<and> m_kneeThreshold st = decibelsToLinear (fadd (m_dbThreshold st) (m_dbKnee st)))
      \<or> m_dbKnee st = Fin (- 1))"

text \<open>The accesses of the remaining \<open>n\<close> iterations of the inner loop are inside the
  storage: the first \<open>nch\<close> channels of the processed buffer hold the frames from
  \<open>frameIndex\<close> on, those of the pre-delay buffer have 1024 frames, and both indices are
  below 1024.\<close>

definition ls_ok :: "nat \<Rightarrow> nat \<Rightarrow> sample_state \<Rightarrow> bool" where
  "ls_ok nch n ls =
     (nch \<le> length (samples ls) \<and> nch \<le> length (delayLine ls)
      \<and> (\<forall>i < nch. frameIndex ls + n \<le> length (samples ls ! i))
      \<and> (\<forall>i < nch. length (delayLine ls ! i) = MaxPreDelayFrames)
      \<and> preDelayReadIndex ls < MaxPreDelayFrames
      \<and> preDelayWriteIndex ls < MaxPreDelayFrames)"

text \<open>The same for the \<open>n\<close> frames that remain when a division starts at \<open>frame\<close>.\<close>

definition division_ok :: "nat \<Rightarrow> nat \<Rightarrow> compressor \<Rightarrow> flt list list \<Rightarrow> nat \<Rightarrow> bool" where
  "division_ok nch n st buf frame =
     (nch \<le> length buf \<and> nch \<le> length (mPreDelayBuffer st)
      \<and> (\<forall>i < nch. frame + n \<le> length (buf ! i))
      \<and> (\<forall>i < nch. length (mPreDelayBuffer st ! i) = MaxPreDelayFrames)
      \<and> m_preDelayReadIndex st < MaxPreDelayFrames
      \<and> m_preDelayWriteIndex st < MaxPreDelayFrames)"

text \<open>The locals of the inner loop as a division loads them.\<close>

definition division_locals :: "compressor \<Rightarrow> flt list list \<Rightarrow> nat \<Rightarrow> sample_state" where
  "division_locals st1 buf frame =
     \<lparr>frameIndex = frame,
      preDelayReadIndex = m_preDelayReadIndex st1,
      preDelayWriteIndex = m_preDelayWriteIndex st1,
      detectorAverage = m_detectorAverage st1,
      compressorGain = m_compressorGain st1,
      meteringGain = m_meteringGain st1,
      delayLine = mPreDelayBuffer st1,
      samples = buf\<rparr>"

section \<open>Well-formed states and buffers\<close>

text \<open>Every channel of the pre-delay buffer has \<open>MaxPreDelayFrames\<close> frames and both
  indices are inside it; every channel of a processed buffer has the buffer's number of
  frames.\<close>

definition wf_state :: "compressor \<Rightarrow> bool" where
  "wf_state st =
     (list_all (\<lambda>ch. length ch = MaxPreDelayFrames) (mPreDelayBuffer st)
      \<and> m_preDelayReadIndex st < MaxPreDelayFrames
      \<and> m_preDelayWriteIndex st < MaxPreDelayFrames)"

definition wf_buffer :: "audio_buffer \<Rightarrow> bool" where
  "wf_buffer b = list_all (\<lambda>ch. length ch = bufNumFrames b) (bufChannels b)"

text \<open>The members that only \<^verbatim>\<open>initialize\<close>, \<^verbatim>\<open>setPreDelayTime\<close> and
  \<^verbatim>\<open>updateStaticCurveParameters\<close> assign are the same in two states.\<close>

definition same_config :: "compressor \<Rightarrow> compressor \<Rightarrow> bool" where
  "same_config st st' =
     (sampleRate st' = sampleRate st
      \<and> m_lastPreDelayFrames st' = m_lastPreDelayFrames st
      \<and> m_ratio st' = m_ratio st \<and> m_slope st' = m_slope st
      \<and> m_linearThreshold st' = m_linearThreshold st
      \<and> m_dbThreshold st' = m_dbThreshold st \<and> m_dbKnee st' = m_dbKnee st
      \<and> m_kneeThreshold st' = m_kneeThreshold st
      \<and> m_kneeThresholdDb st' = m_kneeThresholdDb st
      \<and> m_ykneeThresholdDb st' = m_ykneeThresholdDb st
      \<and> m_K st' = m_K st
      \<and> m_meteringReleaseK st' = m_meteringReleaseK st)"

text \<open>The invariant of the look-ahead buffer: the write index is the read index plus the
  configured delay, modulo the capacity.\<close>

definition delay_invariant :: "compressor \<Rightarrow> bool" where
  "delay_invariant st =
     (m_preDelayWriteIndex st
        = (m_preDelayReadIndex st + m_lastPreDelayFrames st) mod MaxPreDelayFrames)"

text \<open>The number of frames that the divisions of a call of \<^verbatim>\<open>process\<close> cover:
  \<open>nDivisions * nDivisionFrames\<close>.\<close>

definition processed_frames :: "audio_buffer \<Rightarrow> nat" where
  "processed_frames buffer =
     ((bufNumFrames buffer mod 2 ^ 32) div nDivisionFrames) * nDivisionFrames"

text \<open>The buffer cut to its first \<open>m\<close> frames.\<close>

definition first_frames :: "nat \<Rightarrow> audio_buffer \<Rightarrow> audio_buffer" where
  "first_frames m buffer =
     buffer\<lparr>bufNumFrames := m, bufChannels := map (take m) (bufChannels buffer)\<rparr>"

section \<open>Predicates of the envelope\<close>

text \<open>A value in the interval from 0 to 1; a value that is finite and not negative, plus
  infinity or NaN; a value that is neither NaN nor infinite.\<close>

fun in01 :: "flt \<Rightarrow> bool" where
  "in01 (Fin x) = (0 \<le> x \<and> x \<le> 1)"
| "in01 _ = False"

fun nonneg_or_nan :: "flt \<Rightarrow> bool" where
  "nonneg_or_nan (Fin x) = (0 \<le> x)"
| "nonneg_or_nan PInf = True"
| "nonneg_or_nan NaN = True"
| "nonneg_or_nan NInf = False"

definition is_finite :: "flt \<Rightarrow> bool" where
  "is_finite v = (\<not> isnan v \<and> \<not> isinf v)"

fun pos_or_nan :: "flt \<Rightarrow> bool" where
  "pos_or_nan (Fin x) = (0 < x)"
| "pos_or_nan PInf = True"
| "pos_or_nan NaN = True"
| "pos_or_nan NInf = False"

fun pos_fin :: "flt \<Rightarrow> bool" where
  "pos_fin (Fin x) = (0 < x)"
| "pos_fin _ = False"

text \<open>The cached curve gives no negative output for a positive input: either the knee
  threshold is not positive (as after \<^verbatim>\<open>initialize\<close>), so that positive inputs take the
  ratio branch of \<^verbatim>\<open>saturate\<close>, or the linear threshold is not negative and \<^verbatim>\<open>m_K\<close> is
  positive.\<close>

definition curve_inv :: "compressor \<Rightarrow> bool" where
  "curve_inv st =
     (\<not> flt_lt (Fin 0) (m_kneeThreshold st)
      \<or> (nonneg_or_nan (m_linearThreshold st) \<and> pos_fin (m_K st)))"

text \<open>What the envelope needs of the block's locals: with the curve of the state, \<open>blk_k\<close>
  gives no negative output; the release frames of the detector are finite and not
  negative; the attack frames are not negative.\<close>

definition block_ok :: "block_locals \<Rightarrow> compressor \<Rightarrow> bool" where
  "block_ok c st =
     ((\<not> flt_lt (Fin 0) (m_kneeThreshold st)
        \<or> (nonneg_or_nan (m_linearThreshold st) \<and> pos_fin (blk_k c)))
      \<and> (case blk_satReleaseFrames c of Fin f \<Rightarrow> 0 \<le> f | _ \<Rightarrow> False)
      \<and> nonneg_or_nan (blk_attackFrames c))"

text \<open>The states that the public operations reach: after \<^verbatim>\<open>initialize\<close>, any sequence of
  \<^verbatim>\<open>reset\<close> and of calls of \<^verbatim>\<open>process\<close> that return.\<close>

inductive reachable :: "compressor \<Rightarrow> bool" where
  reachable_initialize: "reachable (initialize sr nch)"
| reachable_reset: "reachable st \<Longrightarrow> reachable (reset st)"
| reachable_process:
    "reachable st \<Longrightarrow> process p buffer st = Some (st', buffer', tr) \<Longrightarrow> reachable st'"

definition env_inv :: "compressor \<Rightarrow> bool" where
  "env_inv st = (in01 (m_detectorAverage st) \<and> in01 (m_compressorGain st) \<and> curve_inv st)"

section \<open>Verified properties\<close>

subsection \<open>The solve for the knee constant\<close>

lemma sqrt_between:
  fixes a b :: real
  assumes "0 < a" "a \<le> b"
  shows "a \<le> sqrt (a * b)" "sqrt (a * b) \<le> b" "\<not> a * b < 0"
proof -
  have "0 \<le> a * b" using assms by simp
  then show "\<not> a * b < 0" by simp
  have "a * a \<le> a * b" using assms by (simp add: mult_left_mono)
  then have "sqrt (a * a) \<le> sqrt (a * b)" by (simp only: real_sqrt_le_iff)
  then show "a \<le> sqrt (a * b)" using assms by simp
  have "a * b \<le> b * b" using assms by (simp add: mult_right_mono)
  then have "sqrt (a * b) \<le> sqrt (b * b)" by (simp only: real_sqrt_le_iff)
  then show "sqrt (a * b) \<le> b" using assms by simp
qed

lemma kAtSlope_body_bracket:
  assumes "bracket_fin v"
  shows "bracket_fin (kAtSlope_body st x ds v) \<and> bracket_ok (kAtSlope_body st x ds v)"
proof -
  obtain a b c where v: "v = (Fin a, Fin b, Fin c)"
    and ab: "1 / 10 \<le> a" "a \<le> c" "c \<le> b" "b \<le> 10000"
    using assms by (cases v rule: bracket_fin.cases) auto
  show ?thesis
  proof (cases "flt_lt (slopeAt st x (Fin c)) ds")
    case True
    have "0 < a" "a \<le> c" using ab by auto
    from sqrt_between[OF this] True ab show ?thesis
      by (simp add: v kAtSlope_body_def bracket_ok_def Let_def)
  next
    case False
    have "0 < c" "c \<le> b" using ab by auto
    from sqrt_between[OF this] False ab show ?thesis
      by (simp add: v kAtSlope_body_def bracket_ok_def Let_def)
  qed
qed

lemma kAtSlope_loop_inv:
  assumes "kAtSlope_loop st x ds i v tr = (v', tr')" "bracket_fin v" "i \<le> 15"
  shows "length tr' = length tr + nat (15 - i) \<and> bracket_fin v'
         \<and> (\<forall>u \<in> set tr'. u \<in> set tr \<or> bracket_ok u)
         \<and> (if i < 15 then v' = last tr' else v' = v)"
  using assms
proof (induction st x ds i v tr rule: kAtSlope_loop.induct)
  case (1 st x ds i v tr)
  show ?case
  proof (cases "i < 15")
    case True
    let ?v = "kAtSlope_body st x ds v"
    have step: "kAtSlope_loop st x ds (i + 1) ?v (tr @ [?v]) = (v', tr')"
      using "1.prems"(1) True by (subst (asm) kAtSlope_loop.simps) (simp add: Let_def)
    have b: "bracket_fin ?v" "bracket_ok ?v"
      using kAtSlope_body_bracket[OF "1.prems"(2)] by auto
    have ih: "length tr' = length (tr @ [?v]) + nat (15 - (i + 1)) \<and> bracket_fin v'
         \<and> (\<forall>u \<in> set tr'. u \<in> set (tr @ [?v]) \<or> bracket_ok u)
         \<and> (if i + 1 < 15 then v' = last tr' else v' = ?v)"
      using "1.IH"[OF True refl step b(1)] True by simp
    have last: "v' = last tr'"
    proof (cases "i + 1 < 15")
      case True
      then show ?thesis using ih by simp
    next
      case False
      then have "kAtSlope_loop st x ds (i + 1) ?v (tr @ [?v]) = (?v, tr @ [?v])"
        by (subst kAtSlope_loop.simps) simp
      then show ?thesis using step by auto
    qed
    show ?thesis using ih b(2) True last by auto
  next
    case False
    then have "kAtSlope_loop st x ds i v tr = (v, tr)"
      by (subst kAtSlope_loop.simps) simp
    then show ?thesis using "1.prems" False by auto
  qed
qed

text \<open>
  C7. For every desired slope (and every state) the loop of \<^verbatim>\<open>kAtSlope\<close> runs its body
  exactly 15 times, whatever the slopes it computes; after each iteration the bracket
  \<open>[minK, maxK]\<close> lies inside the initial interval from 0.1 to 10000 and \<open>k\<close> is the
  geometric mean of the bracket; the value returned is the geometric mean of the last
  bracket and lies between 0.1 and 10000.
\<close>

theorem kAtSlope_fifteen_iterations:
  "length (kAtSlope_iterations st desiredSlope) = 15
   \<and> (\<forall>v \<in> set (kAtSlope_iterations st desiredSlope). bracket_ok v)
   \<and> kAtSlope st desiredSlope
       = (case last (kAtSlope_iterations st desiredSlope) of
            (minK, maxK, k) \<Rightarrow> sqrtf (fmul minK maxK))
   \<and> flt_le (Fin 0.1) (kAtSlope st desiredSlope)
   \<and> flt_le (kAtSlope st desiredSlope) (Fin 10000)"
proof -
  define x where "x = decibelsToLinear (fadd (m_dbThreshold st) (m_dbKnee st))"
  obtain v' tr' where run:
    "kAtSlope_loop st x desiredSlope 0 (Fin 0.1, Fin 10000, Fin 5) [] = (v', tr')"
    by (cases "kAtSlope_loop st x desiredSlope 0 (Fin 0.1, Fin 10000, Fin 5) []") auto
  have init: "bracket_fin (Fin 0.1, Fin 10000, Fin 5)"
    by simp
  from kAtSlope_loop_inv[OF run init]
  have inv: "length tr' = 15" "bracket_fin v'" "\<forall>u \<in> set tr'. bracket_ok u" "v' = last tr'"
    by auto
  have r: "kAtSlope_run st desiredSlope = (v', tr')"
    using run by (simp add: kAtSlope_run_def x_def Let_def)
  have ne: "tr' \<noteq> []" using inv(1) by auto
  then have okl: "bracket_ok (last tr')" using inv(3) by simp
  obtain a b c where l: "last tr' = (a, b, c)" by (cases "last tr'") auto
  have k: "kAtSlope st desiredSlope = c"
    using r inv(4) l by (simp add: kAtSlope_def)
  have tr: "kAtSlope_iterations st desiredSlope = tr'"
    using r by (simp add: kAtSlope_iterations_def)
  have bf: "bracket_fin (a, b, c)" using inv(2,4) l by simp
  have "flt_le (Fin 0.1) c \<and> flt_le c (Fin 10000)"
    using bf by (cases "(a, b, c)" rule: bracket_fin.cases) auto
  moreover have "c = sqrtf (fmul a b)" using okl l by (simp add: bracket_ok_def)
  ultimately show ?thesis using inv(1,3) k tr l by simp
qed


theorem kAtSlope_fifteen_iterations_witness:
  "length (kAtSlope_iterations (initialize 44100 2) (Fin (1 / 12))) = 15
   \<and> bracket_ok (last (kAtSlope_iterations (initialize 44100 2) (Fin (1 / 12))))
   \<and> flt_le (Fin 0.1) (kAtSlope (initialize 44100 2) (Fin (1 / 12)))
   \<and> flt_le (kAtSlope (initialize 44100 2) (Fin (1 / 12))) (Fin 10000)"
proof -
  note t = kAtSlope_fifteen_iterations [of "initialize 44100 2" "Fin (1 / 12)"]
  have "kAtSlope_iterations (initialize 44100 2) (Fin (1 / 12)) \<noteq> []"
    using t by auto
  then have "last (kAtSlope_iterations (initialize 44100 2) (Fin (1 / 12)))
               \<in> set (kAtSlope_iterations (initialize 44100 2) (Fin (1 / 12)))"
    by simp
  then show ?thesis using t by blast
qed

subsection \<open>The block's locals\<close>

lemma flt_le_not_lt: "flt_le a b \<Longrightarrow> \<not> flt_lt b a"
  by (cases a; cases b) auto

lemma block_setup_attackFrames:
  "blk_attackFrames (fst (block_setup p buffer st))
     = attackFrames_of (paramAttackTime p) (of_size_t (sampleRate st))"
  unfolding block_setup_def Let_def by (simp only: fst_conv block_locals.simps)

lemma block_setup_cong_attack:
  assumes "attackFrames_of (paramAttackTime p) (of_size_t (sampleRate st))
           = attackFrames_of (paramAttackTime q) (of_size_t (sampleRate st))"
    and "paramThreshold p = paramThreshold q" "paramKnee p = paramKnee q"
        "paramRatio p = paramRatio q" "paramReleaseTime p = paramReleaseTime q"
  shows "block_setup p buffer st = block_setup q buffer st"
  unfolding block_setup_def Let_def using assms by (simp only:)

lemma attackFrames_of_clamped:
  assumes "flt_le a (Fin 0.001)"
  shows "attackFrames_of a s = fmul (Fin 0.001) s"
  using flt_le_not_lt[OF assms] by (simp add: attackFrames_of_def std_max_def)

lemma std_max_lower: "flt_le (Fin 0.001) (std_max (Fin 0.001) a)"
  by (cases a) (auto simp: std_max_def)

text \<open>
  C10. \<^verbatim>\<open>process\<close> replaces the attack time by \<^verbatim>\<open>std::max( 0.001f, attackTime )\<close>, which is
  never below 0.001, before it multiplies by the sample rate; for every attack time at or
  below 0.001 (zero and negative values included) the attack frames are those of 0.001,
  and the whole call computes what it computes for an attack time of 0.001.
\<close>

theorem attack_time_clamped_to_one_ms:
  "flt_le (Fin 0.001) (std_max (Fin 0.001) (paramAttackTime p))
   \<and> blk_attackFrames (fst (block_setup p buffer st))
       = fmul (std_max (Fin 0.001) (paramAttackTime p)) (of_size_t (sampleRate st))
   \<and> (flt_le (paramAttackTime p) (Fin 0.001) \<longrightarrow>
        blk_attackFrames (fst (block_setup p buffer st))
          = fmul (Fin 0.001) (of_size_t (sampleRate st))
        \<and> process p buffer st = process (p\<lparr>paramAttackTime := Fin 0.001\<rparr>) buffer st)"
proof -
  have a: "blk_attackFrames (fst (block_setup p buffer st))
       = fmul (std_max (Fin 0.001) (paramAttackTime p)) (of_size_t (sampleRate st))"
    by (simp add: block_setup_attackFrames attackFrames_of_def)
  have b: "process p buffer st = process (p\<lparr>paramAttackTime := Fin 0.001\<rparr>) buffer st"
    if le: "flt_le (paramAttackTime p) (Fin 0.001)"
  proof -
    have "attackFrames_of (paramAttackTime p) (of_size_t (sampleRate st))
           = attackFrames_of (paramAttackTime (p\<lparr>paramAttackTime := Fin 0.001\<rparr>))
               (of_size_t (sampleRate st))"
      using attackFrames_of_clamped[OF le] by (simp add: attackFrames_of_def std_max_def)
    then have "block_setup p buffer st
                 = block_setup (p\<lparr>paramAttackTime := Fin 0.001\<rparr>) buffer st"
      by (rule block_setup_cong_attack) simp_all
    then show ?thesis unfolding process_def by (simp only:)
  qed
  have c: "blk_attackFrames (fst (block_setup p buffer st))
          = fmul (Fin 0.001) (of_size_t (sampleRate st))"
    if le: "flt_le (paramAttackTime p) (Fin 0.001)"
    using attackFrames_of_clamped[OF le] by (simp only: block_setup_attackFrames)
  show ?thesis using a b c std_max_lower by blast
qed

theorem attack_time_clamped_to_one_ms_witness:
  "flt_le (Fin 0) (Fin 0.001)
   \<and> process \<lparr>paramThreshold = Fin (- 24), paramRatio = Fin 12, paramKnee = Fin 30,
               paramAttackTime = Fin 0, paramReleaseTime = Fin 0.25\<rparr>
        \<lparr>bufNumFrames = 32, bufChannels = [replicate 32 (Fin 0)]\<rparr> (initialize 44100 1)
     = process \<lparr>paramThreshold = Fin (- 24), paramRatio = Fin 12, paramKnee = Fin 30,
                 paramAttackTime = Fin 0.001, paramReleaseTime = Fin 0.25\<rparr>
        \<lparr>bufNumFrames = 32, bufChannels = [replicate 32 (Fin 0)]\<rparr> (initialize 44100 1)"
  using attack_time_clamped_to_one_ms
    [of "\<lparr>paramThreshold = Fin (- 24), paramRatio = Fin 12, paramKnee = Fin 30,
          paramAttackTime = Fin 0, paramReleaseTime = Fin 0.25\<rparr>"
        "\<lparr>bufNumFrames = 32, bufChannels = [replicate 32 (Fin 0)]\<rparr>" "initialize 44100 1"]
  by simp

subsection \<open>The pre-delay time\<close>

lemma setPreDelayTime_Some:
  assumes "to_unsigned (fmul preDelayTime (of_size_t (sampleRate st))) = Some n"
  shows "setPreDelayTime preDelayTime st =
     Some (if m_lastPreDelayFrames st \<noteq> min n (MaxPreDelayFrames - 1)
           then st\<lparr>m_lastPreDelayFrames := min n (MaxPreDelayFrames - 1),
                   mPreDelayBuffer := zero_buffer (mPreDelayBuffer st),
                   m_preDelayReadIndex := 0,
                   m_preDelayWriteIndex := min n (MaxPreDelayFrames - 1)\<rparr>
           else st)"
proof -
  have "(if n > MaxPreDelayFrames - 1 then MaxPreDelayFrames - 1 else n)
          = min n (MaxPreDelayFrames - 1)"
    by (simp add: min_def)
  then show ?thesis
    using assms unfolding setPreDelayTime_def Let_def by (simp only: option.case)
qed

text \<open>
  C3 (as amended). For every pre-delay time whose frame count converts to \<^verbatim>\<open>unsigned\<close>,
  \<^verbatim>\<open>setPreDelayTime\<close> clamps the count to the range from 0 to capacity - 1, that is 1023;
  when the clamped count differs from the current delay the whole pre-delay buffer is
  zeroed, the read index is 0 and the write index is the count; when it is equal the
  state, with the buffer and both indices, is unchanged.
\<close>

theorem setPreDelayTime_clamps_to_capacity_minus_one:
  assumes "to_unsigned (fmul preDelayTime (of_size_t (sampleRate st))) = Some n"
  shows "\<exists>st'. setPreDelayTime preDelayTime st = Some st'
     \<and> m_lastPreDelayFrames st' = min n (MaxPreDelayFrames - 1)
     \<and> m_lastPreDelayFrames st' \<le> 1023
     \<and> (if m_lastPreDelayFrames st' \<noteq> m_lastPreDelayFrames st
         then mPreDelayBuffer st' = map (map (\<lambda>_. Fin 0)) (mPreDelayBuffer st)
              \<and> m_preDelayReadIndex st' = 0
              \<and> m_preDelayWriteIndex st' = m_lastPreDelayFrames st'
         else st' = st)"
  unfolding setPreDelayTime_Some[OF assms]
  by (simp add: MaxPreDelayFrames_def zero_buffer_def)

lemma to_unsigned_predelay_44100:
  "to_unsigned (fmul (Fin 0.006) (of_size_t (sampleRate (initialize 44100 1)))) = Some 264"
  by (simp add: initialize_def reset_def of_size_t_def)

theorem setPreDelayTime_clamps_to_capacity_minus_one_witness:
  "to_unsigned (fmul (Fin 0.006) (of_size_t (sampleRate (initialize 44100 1)))) = Some 264
   \<and> map_option m_lastPreDelayFrames (setPreDelayTime (Fin 0.006) (initialize 44100 1))
       = Some 264
   \<and> map_option m_preDelayWriteIndex (setPreDelayTime (Fin 0.006) (initialize 44100 1))
       = Some 264
   \<and> map_option m_preDelayReadIndex (setPreDelayTime (Fin 0.006) (initialize 44100 1))
       = Some 0"
  using setPreDelayTime_clamps_to_capacity_minus_one[OF to_unsigned_predelay_44100]
    to_unsigned_predelay_44100
  by (auto simp: MaxPreDelayFrames_def initialize_def reset_def DefaultPreDelayFrames_def)

text \<open>
  C3 as stated, with a bound of capacity - 2, does not hold: at 44100 Hz a pre-delay time
  of one second is clamped to 1023 frames, which is capacity - 1.
\<close>

theorem setPreDelayTime_clamp_counterexample:
  "map_option m_lastPreDelayFrames (setPreDelayTime (Fin 1) (initialize 44100 1))
     = Some (MaxPreDelayFrames - 1)
   \<and> MaxPreDelayFrames - 2 < MaxPreDelayFrames - 1"
proof -
  have "to_unsigned (fmul (Fin 1) (of_size_t (sampleRate (initialize 44100 1)))) = Some 44100"
    by (simp add: initialize_def reset_def of_size_t_def)
  from setPreDelayTime_Some[OF this] show ?thesis
    by (simp add: MaxPreDelayFrames_def initialize_def reset_def DefaultPreDelayFrames_def)
qed

subsection \<open>The cache of the curve parameters\<close>

lemma flt_ne_iff: "\<not> isnan a \<Longrightarrow> flt_ne a b \<longleftrightarrow> a \<noteq> b"
  by (cases a; cases b) (auto simp: flt_ne_def flt_eq_def)

lemma updateStaticCurveParameters_unchanged:
  assumes "\<not> curve_parameters_changed dbThreshold dbKnee ratio st"
  shows "updateStaticCurveParameters dbThreshold dbKnee ratio st = (m_K st, 0, st)"
  using assms unfolding updateStaticCurveParameters_def by (simp only: if_False)

lemma updateStaticCurveParameters_changed:
  assumes "curve_parameters_changed dbThreshold dbKnee ratio st"
  shows "updateStaticCurveParameters dbThreshold dbKnee ratio st
     = (m_K (recomputed_curve dbThreshold dbKnee ratio st), 15,
        recomputed_curve dbThreshold dbKnee ratio st)"
proof -
  have len: "length (kAtSlope_iterations s d) = 15" for s d
    using kAtSlope_loop_inv[of s "decibelsToLinear (fadd (m_dbThreshold s) (m_dbKnee s))" d 0
        "(Fin 0.1, Fin 10000, Fin 5)" "[]"]
    by (cases "kAtSlope_loop s (decibelsToLinear (fadd (m_dbThreshold s) (m_dbKnee s))) d 0
                 (Fin 0.1, Fin 10000, Fin 5) []")
       (simp add: kAtSlope_iterations_def kAtSlope_run_def Let_def)
  show ?thesis
    using assms unfolding updateStaticCurveParameters_def recomputed_curve_def Let_def
    by (simp add: len)
qed


lemma kAtSlope_in_range:
  "\<exists>c. kAtSlope st d = Fin c \<and> 1 / 10 \<le> c \<and> c \<le> 10000"
proof -
  define x where "x = decibelsToLinear (fadd (m_dbThreshold st) (m_dbKnee st))"
  obtain v' tr' where run:
    "kAtSlope_loop st x d 0 (Fin 0.1, Fin 10000, Fin 5) [] = (v', tr')"
    by (cases "kAtSlope_loop st x d 0 (Fin 0.1, Fin 10000, Fin 5) []") auto
  have init: "bracket_fin (Fin 0.1, Fin 10000, Fin 5)" by simp
  have i0: "(0::int) \<le> 15" by simp
  from kAtSlope_loop_inv[OF run init i0] have bf: "bracket_fin v'" by blast
  have "kAtSlope st d = (case v' of (minK, maxK, k) \<Rightarrow> k)"
    using run by (simp add: kAtSlope_def kAtSlope_run_def x_def Let_def)
  then show ?thesis using bf by (cases v' rule: bracket_fin.cases) auto
qed

text \<open>
  C6. \<^verbatim>\<open>updateStaticCurveParameters\<close> recomputes the cached curve parameters exactly when
  its test \<^verbatim>\<open>dbThreshold != m_dbThreshold || dbKnee != m_dbKnee || ratio != m_ratio\<close> holds,
  which for arguments that are not NaN is: the triple differs from the cached triple. When
  the test fails the state is returned as it was, the result is the cached \<^verbatim>\<open>m_K\<close> and
  the body of the loop of \<^verbatim>\<open>kAtSlope\<close> runs 0 times; when it holds the loop runs 15 times
  and every cached field has its recomputed value.
\<close>

theorem updateStaticCurveParameters_recomputes_iff_changed:
  "(\<not> curve_parameters_changed dbThreshold dbKnee ratio st \<longrightarrow>
      updateStaticCurveParameters dbThreshold dbKnee ratio st = (m_K st, 0, st))
   \<and> (curve_parameters_changed dbThreshold dbKnee ratio st \<longrightarrow>
      (\<exists>k st'. updateStaticCurveParameters dbThreshold dbKnee ratio st = (k, 15, st')
         \<and> m_K st' = k
         \<and> k = kAtSlope (st\<lparr>m_dbThreshold := dbThreshold,
                              m_linearThreshold := decibelsToLinear dbThreshold,
                              m_dbKnee := dbKnee, m_ratio := ratio,
                              m_slope := fdiv (Fin 1) ratio\<rparr>) (fdiv (Fin 1) ratio)
         \<and> m_dbThreshold st' = dbThreshold
         \<and> m_dbKnee st' = dbKnee
         \<and> m_ratio st' = ratio
         \<and> m_linearThreshold st' = decibelsToLinear dbThreshold
         \<and> m_slope st' = fdiv (Fin 1) ratio
         \<and> m_kneeThresholdDb st' = fadd dbThreshold dbKnee
         \<and> m_kneeThreshold st' = decibelsToLinear (fadd dbThreshold dbKnee)
         \<and> m_ykneeThresholdDb st'
              = linearToDecibels (kneeCurve st' (m_kneeThreshold st') k)))
   \<and> (\<not> isnan dbThreshold \<and> \<not> isnan dbKnee \<and> \<not> isnan ratio \<longrightarrow>
        curve_parameters_changed dbThreshold dbKnee ratio st
          = ((dbThreshold, dbKnee, ratio) \<noteq> (m_dbThreshold st, m_dbKnee st, m_ratio st)))"
proof -
  have a: "curve_parameters_changed dbThreshold dbKnee ratio st
          = ((dbThreshold, dbKnee, ratio) \<noteq> (m_dbThreshold st, m_dbKnee st, m_ratio st))"
    if "\<not> isnan dbThreshold \<and> \<not> isnan dbKnee \<and> \<not> isnan ratio"
    using that by (auto simp: curve_parameters_changed_def flt_ne_iff)
  have b: "\<exists>k st'. updateStaticCurveParameters dbThreshold dbKnee ratio st = (k, 15, st')
         \<and> m_K st' = k
         \<and> k = kAtSlope (st\<lparr>m_dbThreshold := dbThreshold,
                              m_linearThreshold := decibelsToLinear dbThreshold,
                              m_dbKnee := dbKnee, m_ratio := ratio,
                              m_slope := fdiv (Fin 1) ratio\<rparr>) (fdiv (Fin 1) ratio)
         \<and> m_dbThreshold st' = dbThreshold
         \<and> m_dbKnee st' = dbKnee
         \<and> m_ratio st' = ratio
         \<and> m_linearThreshold st' = decibelsToLinear dbThreshold
         \<and> m_slope st' = fdiv (Fin 1) ratio
         \<and> m_kneeThresholdDb st' = fadd dbThreshold dbKnee
         \<and> m_kneeThreshold st' = decibelsToLinear (fadd dbThreshold dbKnee)
         \<and> m_ykneeThresholdDb st'
              = linearToDecibels (kneeCurve st' (m_kneeThreshold st') k)"
    if "curve_parameters_changed dbThreshold dbKnee ratio st"
    unfolding updateStaticCurveParameters_changed[OF that]
    by (simp add: recomputed_curve_def Let_def kneeCurve_def)
  show ?thesis
    using a b updateStaticCurveParameters_unchanged by blast
qed

theorem updateStaticCurveParameters_recomputes_iff_changed_witness:
  "curve_parameters_changed (Fin (- 24)) (Fin 30) (Fin 12) (initialize 44100 1)
   \<and> fst (snd (updateStaticCurveParameters (Fin (- 24)) (Fin 30) (Fin 12) (initialize 44100 1)))
       = 15
   \<and> \<not> curve_parameters_changed (Fin (- 1)) (Fin (- 1)) (Fin (- 1)) (initialize 44100 1)
   \<and> updateStaticCurveParameters (Fin (- 1)) (Fin (- 1)) (Fin (- 1)) (initialize 44100 1)
       = (Fin (- 1), 0, initialize 44100 1)"
proof -
  have c: "curve_parameters_changed (Fin (- 24)) (Fin 30) (Fin 12) (initialize 44100 1)"
    by (simp add: curve_parameters_changed_def flt_ne_def flt_eq_def initialize_def reset_def)
  have u: "\<not> curve_parameters_changed (Fin (- 1)) (Fin (- 1)) (Fin (- 1)) (initialize 44100 1)"
    by (simp add: curve_parameters_changed_def flt_ne_def flt_eq_def initialize_def reset_def)
  have k: "m_K (initialize 44100 1) = Fin (- 1)"
    by (simp add: initialize_def reset_def)
  show ?thesis
    using c u k
      updateStaticCurveParameters_recomputes_iff_changed
        [of "Fin (- 24)" "Fin 30" "Fin 12" "initialize 44100 1"]
      updateStaticCurveParameters_recomputes_iff_changed
        [of "Fin (- 1)" "Fin (- 1)" "Fin (- 1)" "initialize 44100 1"]
    by auto
qed

subsection \<open>Decibels\<close>

lemma decibelsToLinear_Fin: "decibelsToLinear (Fin t) = Fin (10 powr (t / 20))"
  by (simp add: decibelsToLinear_def)

lemma decibelsToLinear_PInf: "decibelsToLinear PInf = PInf"
  by (simp add: decibelsToLinear_def inf_of_sign_def)

lemma decibelsToLinear_NInf: "decibelsToLinear NInf = Fin 0"
  by (simp add: decibelsToLinear_def inf_of_sign_def)

lemma decibelsToLinear_NaN: "decibelsToLinear NaN = NaN"
  by (simp add: decibelsToLinear_def)

lemma decibelsToLinear_knee_mono:
  assumes "flt_le (Fin 0) d" "flt_lt (Fin 0) x" "flt_lt x (decibelsToLinear t)"
  shows "flt_lt x (decibelsToLinear (fadd t d))
         \<and> flt_le (decibelsToLinear t) (decibelsToLinear (fadd t d))"
proof (cases t)
  case (Fin tr)
  show ?thesis
  proof (cases d)
    case (Fin dr)
    then have "0 \<le> dr" using assms(1) by simp
    then have mono: "(10::real) powr (tr / 20) \<le> 10 powr ((tr + dr) / 20)"
      by (simp add: powr_mono)
    have "x1 < 10 powr ((tr + dr) / 20)" if "x1 < 10 powr (tr / 20)" for x1 :: real
      using that mono by (rule less_le_trans)
    then show ?thesis
      using assms(2,3) \<open>t = Fin tr\<close> Fin \<open>0 \<le> dr\<close>
      by (cases x) (auto simp: decibelsToLinear_Fin)
  next
    case PInf
    then show ?thesis
      using assms(2,3) \<open>t = Fin tr\<close>
      by (cases x) (auto simp: decibelsToLinear_Fin decibelsToLinear_PInf)
  next
    case NInf
    then show ?thesis using assms(1) by simp
  next
    case NaN
    then show ?thesis using assms(1) by simp
  qed
next
  case PInf
  then show ?thesis
    using assms by (cases d; cases x) (auto simp: decibelsToLinear_PInf)
next
  case NInf
  then show ?thesis
    using assms by (cases x) (auto simp: decibelsToLinear_NInf)
next
  case NaN
  then show ?thesis
    using assms by (cases x) (auto simp: decibelsToLinear_NaN)
qed

subsection \<open>The curve below the threshold\<close>

lemma flt_eq_imp_eq: "\<not> flt_ne a b \<Longrightarrow> a = b"
  by (simp add: flt_ne_def flt_eq_def)

lemma updateStaticCurveParameters_cache:
  assumes "updateStaticCurveParameters dbThreshold dbKnee ratio st = (k0, n, st')"
    and "curve_cache_ok st" and "dbKnee \<noteq> Fin (- 1)"
  shows "m_linearThreshold st' = decibelsToLinear dbThreshold
         \<and> m_kneeThreshold st' = decibelsToLinear (fadd dbThreshold dbKnee)"
proof (cases "curve_parameters_changed dbThreshold dbKnee ratio st")
  case True
  then show ?thesis
    using assms(1) unfolding updateStaticCurveParameters_changed[OF True]
    by (auto simp: recomputed_curve_def Let_def)
next
  case False
  then have eq: "m_dbThreshold st = dbThreshold" "m_dbKnee st = dbKnee"
    by (auto simp: curve_parameters_changed_def dest: flt_eq_imp_eq)
  have "st' = st"
    using assms(1) unfolding updateStaticCurveParameters_unchanged[OF False] by simp
  then show ?thesis using assms(2,3) eq by (auto simp: curve_cache_ok_def)
qed

text \<open>
  C4. After \<^verbatim>\<open>updateStaticCurveParameters\<close> with a knee of at least 0 dB, in a state whose
  cache of thresholds is that of \<^verbatim>\<open>initialize\<close> or of an earlier update, the linear threshold
  is at most the knee threshold and \<^verbatim>\<open>saturate(x, k)\<close> returns \<open>x\<close> itself for every \<open>k\<close> and
  every \<open>x\<close> with \<open>0 < x < m_linearThreshold\<close>.
\<close>

theorem saturate_identity_below_threshold:
  assumes "curve_cache_ok st"
    and "updateStaticCurveParameters dbThreshold dbKnee ratio st = (k0, n, st')"
    and "flt_le (Fin 0) dbKnee"
    and "flt_lt (Fin 0) x"
    and "flt_lt x (m_linearThreshold st')"
  shows "saturate st' x k = x \<and> flt_le (m_linearThreshold st') (m_kneeThreshold st')"
proof -
  have "dbKnee \<noteq> Fin (- 1)" using assms(3) by auto
  from updateStaticCurveParameters_cache[OF assms(2,1) this]
  have c: "m_linearThreshold st' = decibelsToLinear dbThreshold"
    "m_kneeThreshold st' = decibelsToLinear (fadd dbThreshold dbKnee)" by auto
  from decibelsToLinear_knee_mono[OF assms(3,4) assms(5)[unfolded c(1)]]
  have "flt_lt x (m_kneeThreshold st')" "flt_le (m_linearThreshold st') (m_kneeThreshold st')"
    using c by auto
  then show ?thesis using assms(5) by (simp add: saturate_def kneeCurve_def)
qed

lemma curve_cache_ok_initialize: "curve_cache_ok (initialize sr nch)"
  by (simp add: curve_cache_ok_def initialize_def reset_def)

theorem saturate_identity_below_threshold_witness:
  "saturate (snd (snd (updateStaticCurveParameters (Fin 0) (Fin 30) (Fin 12)
                         (initialize 44100 1)))) (Fin (1 / 2)) (Fin 7)
     = Fin (1 / 2)"
proof -
  obtain k0 n st' where u:
    "updateStaticCurveParameters (Fin 0) (Fin 30) (Fin 12) (initialize 44100 1) = (k0, n, st')"
    by (cases "updateStaticCurveParameters (Fin 0) (Fin 30) (Fin 12) (initialize 44100 1)") auto
  have "Fin 30 \<noteq> Fin (- 1)" by simp
  from updateStaticCurveParameters_cache[OF u curve_cache_ok_initialize this]
  have lt: "flt_lt (Fin (1 / 2)) (m_linearThreshold st')"
    by (simp add: decibelsToLinear_Fin)
  have "flt_le (Fin 0) (Fin 30)" "flt_lt (Fin 0) (Fin (1 / 2))" by simp_all
  from saturate_identity_below_threshold[OF curve_cache_ok_initialize u this lt]
  show ?thesis using u by simp
qed

subsection \<open>The metering\<close>

lemma metering_update_relax_step:
  assumes "0 < g" "v \<le> 20 * log 10 g"
  shows "metering_update (Fin kk) (Fin g) (Fin v)
           = Fin (20 * log 10 g + (1 - kk) * (v - 20 * log 10 g))"
  using assms by (simp add: metering_update_def Let_def fsub_def algebra_simps)

lemma metering_update_relax_funpow:
  assumes "0 < g" "mm \<le> 20 * log 10 g" "0 \<le> kk" "kk \<le> 1"
  shows "(metering_update (Fin kk) (Fin g) ^^ n) (Fin mm)
           = Fin (20 * log 10 g + (1 - kk) ^ n * (mm - 20 * log 10 g))"
proof (induction n)
  case 0
  then show ?case by simp
next
  case (Suc n)
  have "0 \<le> (1 - kk) ^ n" using assms(4) by simp
  then have "(1 - kk) ^ n * (mm - 20 * log 10 g) \<le> 0"
    using assms(2) by (simp add: mult_nonneg_nonpos)
  then have le: "20 * log 10 g + (1 - kk) ^ n * (mm - 20 * log 10 g) \<le> 20 * log 10 g"
    by simp
  show ?case
    using metering_update_relax_step[OF assms(1) le, of kk] Suc.IH by simp
qed

lemma meteringReleaseK_initialize:
  assumes "0 < sr"
  shows "m_meteringReleaseK (initialize sr nch) = Fin (1 - exp (- 1 / (real sr * 0.325)))"
  using assms
  by (simp add: initialize_def reset_def discreteTimeConstantForSampleRate_def of_size_t_def
      fsub_def)

text \<open>
  C8 (as amended). With \<open>dbRealGain = 20 log10(postWarpGain)\<close>: when \<open>dbRealGain\<close> is below
  the metering gain, the metering gain becomes \<open>dbRealGain\<close>; otherwise it moves towards
  \<open>dbRealGain\<close> (not towards 0) by the fraction \<open>meteringReleaseK\<close> of the distance, so that
  after \<open>n\<close> updates at a constant gain the distance to \<open>dbRealGain\<close> is \<open>(1 - K) ^ n\<close> times
  the first one; \<^verbatim>\<open>initialize\<close> sets \<open>meteringReleaseK = 1 - exp (- 1 / (sampleRate * 0.325))\<close>.
\<close>

theorem metering_snaps_or_relaxes_to_dbRealGain:
  "(flt_lt (fmul (Fin 20) (log10f postWarpGain)) metering \<longrightarrow>
      metering_update K postWarpGain metering = fmul (Fin 20) (log10f postWarpGain))
   \<and> (\<not> flt_lt (fmul (Fin 20) (log10f postWarpGain)) metering \<longrightarrow>
      metering_update K postWarpGain metering
        = fadd metering (fmul (fsub (fmul (Fin 20) (log10f postWarpGain)) metering) K))
   \<and> (0 < g \<and> mm \<le> 20 * log 10 g \<and> 0 \<le> kk \<and> kk \<le> 1 \<longrightarrow>
      (metering_update (Fin kk) (Fin g) ^^ n) (Fin mm)
        = Fin (20 * log 10 g + (1 - kk) ^ n * (mm - 20 * log 10 g)))
   \<and> (0 < sr \<longrightarrow>
      m_meteringReleaseK (initialize sr nch) = Fin (1 - exp (- 1 / (real sr * 0.325))))"
  using metering_update_relax_funpow meteringReleaseK_initialize
  by (simp add: metering_update_def Let_def)

lemma log10_tenth: "log 10 (1 / 10) = - 1"
  by (simp add: log_recip)

theorem metering_snaps_or_relaxes_to_dbRealGain_witness:
  "metering_update (Fin (1 / 2)) (Fin (1 / 10)) (Fin (- 10)) = Fin (- 20)
   \<and> metering_update (Fin (1 / 2)) (Fin (1 / 10)) (Fin (- 40)) = Fin (- 30)
   \<and> (metering_update (Fin (1 / 2)) (Fin 1) ^^ 3) (Fin (- 8)) = Fin (- 1)
   \<and> m_meteringReleaseK (initialize 44100 2) = Fin (1 - exp (- 1 / (real 44100 * 0.325)))"
proof -
  note t1 = metering_snaps_or_relaxes_to_dbRealGain
              [of "Fin (1 / 10)" "Fin (- 10)" "Fin (1 / 2)" 1 0 0 0 44100 2]
  note t2 = metering_snaps_or_relaxes_to_dbRealGain
              [of "Fin (1 / 10)" "Fin (- 40)" "Fin (1 / 2)" 1 "- 8" "1 / 2" 3 44100 2]
  have a: "metering_update (Fin (1 / 2)) (Fin (1 / 10)) (Fin (- 10)) = Fin (- 20)"
    using t1 by (simp add: log10_tenth)
  have b: "metering_update (Fin (1 / 2)) (Fin (1 / 10)) (Fin (- 40)) = Fin (- 30)"
    using t2 by (simp add: log10_tenth fsub_def)
  have c: "(metering_update (Fin (1 / 2)) (Fin 1) ^^ 3) (Fin (- 8)) = Fin (- 1)"
    using t2 by (simp add: power3_eq_cube)
  have d: "m_meteringReleaseK (initialize 44100 2) = Fin (1 - exp (- 1 / (real 44100 * 0.325)))"
    using t1 by simp
  show ?thesis using a b c d by simp
qed

text \<open>
  C8 as stated, with a relaxation towards 0, does not hold: at a post-warp gain of 0.1
  (\<open>dbRealGain = -20\<close>) a metering gain of -20 is not above \<open>dbRealGain\<close> and stays at
  -20, and a metering gain of -40 moves to -30 at the rate 1/2, where a relaxation towards
  0 at that rate gives -20.
\<close>

theorem metering_relaxes_toward_zero_counterexample:
  "\<not> flt_lt (fmul (Fin 20) (log10f (Fin (1 / 10)))) (Fin (- 20))
   \<and> metering_update (Fin (1 / 2)) (Fin (1 / 10)) (Fin (- 20)) = Fin (- 20)
   \<and> metering_update (Fin (1 / 2)) (Fin (1 / 10)) (Fin (- 40)) = Fin (- 30)
   \<and> fadd (Fin (- 40)) (fmul (fsub (Fin 0) (Fin (- 40))) (Fin (1 / 2))) = Fin (- 20)"
  by (simp add: metering_update_def Let_def log10_tenth fsub_def)

subsection \<open>The loops over the channels\<close>

lemma and_mask_mod: "(x::nat) AND MaxPreDelayFramesMask = x mod MaxPreDelayFrames"
proof -
  have "(1023::nat) = mask 10" by (simp add: mask_eq_exp_minus_1)
  then have "x AND 1023 = take_bit 10 x" by (simp add: take_bit_eq_mask)
  then show ?thesis
    by (simp add: MaxPreDelayFramesMask_def MaxPreDelayFrames_def take_bit_eq_mod)
qed

lemma shape_update_channel:
  "i < length d \<Longrightarrow> map length (d[i := (d ! i)[w := v]]) = map length d"
  by (simp add: map_update list_update_same_conv)

lemma predelay_write_0: "predelay_write 0 frame w buf delay = Some (delay, Fin 0)"
  by (simp add: predelay_write_def)

lemma predelay_write_Suc:
  "predelay_write (Suc n) frame w buf delay
     = predelay_write_channel frame w buf n (predelay_write n frame w buf delay)"
  by (simp add: predelay_write_def)

lemma predelay_write_channel_Some:
  assumes "predelay_write_channel frame w buf i acc = Some (d', c')"
  shows "\<exists>d c. acc = Some (d, c) \<and> i < length buf \<and> frame < length (buf ! i)
           \<and> i < length d \<and> w < length (d ! i)
           \<and> d' = d[i := (d ! i)[w := buf ! i ! frame]]
           \<and> c' = (if flt_lt c (fabs_src (buf ! i ! frame)) then fabs_src (buf ! i ! frame)
                    else c)"
proof (cases acc)
  case None
  then show ?thesis using assms by (simp add: predelay_write_channel_def)
next
  case (Some a)
  obtain d c where a: "a = (d, c)" by (cases a) auto
  have ok: "i < length buf \<and> frame < length (buf ! i) \<and> i < length d \<and> w < length (d ! i)"
    using assms Some a by (simp add: predelay_write_channel_def split: if_splits)
  then have "d' = d[i := (d ! i)[w := buf ! i ! frame]]
      \<and> c' = (if flt_lt c (fabs_src (buf ! i ! frame)) then fabs_src (buf ! i ! frame) else c)"
    using assms Some a by (simp add: predelay_write_channel_def Let_def)
  then show ?thesis using ok Some a by blast
qed

lemma predelay_write_shape:
  "predelay_write n frame w buf delay = Some (d', c) \<Longrightarrow> map length d' = map length delay"
proof (induction n arbitrary: d' c)
  case 0
  then show ?case by (simp add: predelay_write_0)
next
  case (Suc n)
  from predelay_write_channel_Some[OF Suc.prems[unfolded predelay_write_Suc]]
  obtain d1 c1 where p: "predelay_write n frame w buf delay = Some (d1, c1)"
    and n: "n < length d1" and d': "d' = d1[n := (d1 ! n)[w := buf ! n ! frame]]"
    by blast
  show ?case using Suc.IH[OF p] shape_update_channel[OF n] d' by simp
qed

lemma nth_length_of_shape:
  "map length a = map length b \<Longrightarrow> length a = length b \<and> (\<forall>i < length b. length (a ! i) = length (b ! i))"
  by (metis length_map nth_map)

lemma predelay_write_succeeds:
  assumes "n \<le> length buf" "n \<le> length delay"
    and "\<forall>i<n. frame < length (buf ! i)" "\<forall>i<n. w < length (delay ! i)"
  shows "\<exists>d' c. predelay_write n frame w buf delay = Some (d', c)"
  using assms
proof (induction n)
  case 0
  then show ?case by (simp add: predelay_write_0)
next
  case (Suc n)
  then obtain d1 c1 where p: "predelay_write n frame w buf delay = Some (d1, c1)"
    by fastforce
  from nth_length_of_shape[OF predelay_write_shape[OF p]]
  have "length d1 = length delay" "length (d1 ! n) = length (delay ! n)"
    using Suc.prems(2) by auto
  then show ?case
    using Suc.prems p by (simp add: predelay_write_Suc predelay_write_channel_def Let_def)
qed

lemma predelay_write_take:
  assumes "frame < m"
  shows "predelay_write n frame w (map (take m) buf) delay = predelay_write n frame w buf delay"
proof (induction n)
  case 0
  then show ?case by (simp add: predelay_write_0)
next
  case (Suc n)
  have "predelay_write_channel frame w (map (take m) buf) n acc
          = predelay_write_channel frame w buf n acc" for acc
    using assms by (cases "n < length buf")
      (auto simp: predelay_write_channel_def Let_def split: option.splits)
  then show ?case using Suc.IH by (simp add: predelay_write_Suc)
qed

lemma apply_gain_0: "apply_gain 0 frame r g delay buf = Some buf"
  by (simp add: apply_gain_def)

lemma apply_gain_Suc:
  "apply_gain (Suc n) frame r g delay buf
     = apply_gain_channel frame r g delay n (apply_gain n frame r g delay buf)"
  by (simp add: apply_gain_def)

lemma apply_gain_channel_Some:
  assumes "apply_gain_channel frame r g delay i acc = Some b'"
  shows "\<exists>b. acc = Some b \<and> i < length delay \<and> r < length (delay ! i)
           \<and> i < length b \<and> frame < length (b ! i)
           \<and> b' = b[i := (b ! i)[frame := fmul (delay ! i ! r) g]]"
proof (cases acc)
  case None
  then show ?thesis using assms by (simp add: apply_gain_channel_def)
next
  case (Some b)
  have ok: "i < length delay \<and> r < length (delay ! i) \<and> i < length b \<and> frame < length (b ! i)"
    using assms Some by (simp add: apply_gain_channel_def split: if_splits)
  then have "b' = b[i := (b ! i)[frame := fmul (delay ! i ! r) g]]"
    using assms Some by (simp add: apply_gain_channel_def)
  then show ?thesis using ok Some by blast
qed

lemma apply_gain_shape:
  "apply_gain n frame r g delay buf = Some b' \<Longrightarrow> map length b' = map length buf"
proof (induction n arbitrary: b')
  case 0
  then show ?case by (simp add: apply_gain_0)
next
  case (Suc n)
  from apply_gain_channel_Some[OF Suc.prems[unfolded apply_gain_Suc]]
  obtain b1 where p: "apply_gain n frame r g delay buf = Some b1"
    and n: "n < length b1" and b': "b' = b1[n := (b1 ! n)[frame := fmul (delay ! n ! r) g]]"
    by blast
  show ?case using Suc.IH[OF p] shape_update_channel[OF n] b' by simp
qed

lemma apply_gain_succeeds:
  assumes "n \<le> length buf" "n \<le> length delay"
    and "\<forall>i<n. frame < length (buf ! i)" "\<forall>i<n. r < length (delay ! i)"
  shows "\<exists>b'. apply_gain n frame r g delay buf = Some b'"
  using assms
proof (induction n)
  case 0
  then show ?case by (simp add: apply_gain_0)
next
  case (Suc n)
  then obtain b1 where p: "apply_gain n frame r g delay buf = Some b1"
    by fastforce
  from nth_length_of_shape[OF apply_gain_shape[OF p]]
  have "length b1 = length buf" "length (b1 ! n) = length (buf ! n)"
    using Suc.prems(1) by auto
  then show ?case
    using Suc.prems p by (simp add: apply_gain_Suc apply_gain_channel_def)
qed

lemma apply_gain_drop:
  assumes "apply_gain n frame r g delay buf = Some b'" "frame < m"
  shows "map (drop m) b' = map (drop m) buf"
  using assms(1)
proof (induction n arbitrary: b')
  case 0
  then show ?case by (simp add: apply_gain_0)
next
  case (Suc n)
  from apply_gain_channel_Some[OF Suc.prems[unfolded apply_gain_Suc]]
  obtain b1 where p: "apply_gain n frame r g delay buf = Some b1"
    and n: "n < length b1" and b': "b' = b1[n := (b1 ! n)[frame := fmul (delay ! n ! r) g]]"
    by blast
  have "map (drop m) b' = (map (drop m) b1)[n := drop m (b1 ! n)]"
    using assms(2) by (simp add: b' map_update)
  also have "\<dots> = map (drop m) b1"
    using n by (simp add: list_update_same_conv)
  finally show ?case using Suc.IH[OF p] by simp
qed

lemma apply_gain_take:
  assumes "frame < m"
  shows "apply_gain n frame r g delay (map (take m) buf)
           = map_option (map (take m)) (apply_gain n frame r g delay buf)"
proof (induction n)
  case 0
  then show ?case by (simp add: apply_gain_0)
next
  case (Suc n)
  have "apply_gain_channel frame r g delay n (map_option (map (take m)) acc)
          = map_option (map (take m)) (apply_gain_channel frame r g delay n acc)" for acc
    using assms
    by (cases acc) (auto simp: apply_gain_channel_def map_update take_update_swap)
  then show ?case using Suc.IH by (simp add: apply_gain_Suc)
qed

subsection \<open>One frame\<close>

lemma sample_step_Some:
  assumes "sample_step c st s e ls = Some ls'"
  shows "\<exists>delay' cin samples'.
     predelay_write (blk_numberOfChannels c) (frameIndex ls) (preDelayWriteIndex ls)
       (samples ls) (delayLine ls) = Some (delay', cin)
     \<and> apply_gain (blk_numberOfChannels c) (frameIndex ls) (preDelayReadIndex ls)
         (fadd (blk_dryMix c)
            (fmul (fmul (blk_wetMix c) (blk_masterLinearGain c))
               (sinf (fmul piOverTwoFloat (gain_update e s (compressorGain ls))))))
         delay' (samples ls) = Some samples'
     \<and> frameIndex ls' = frameIndex ls + 1
     \<and> preDelayReadIndex ls' = (preDelayReadIndex ls + 1) mod MaxPreDelayFrames
     \<and> preDelayWriteIndex ls' = (preDelayWriteIndex ls + 1) mod MaxPreDelayFrames
     \<and> detectorAverage ls'
         = detector_update (blk_satReleaseFrames c)
             (detector_attenuation st (blk_k c) cin) (detectorAverage ls)
     \<and> compressorGain ls' = gain_update e s (compressorGain ls)
     \<and> meteringGain ls'
         = metering_update (m_meteringReleaseK st)
             (sinf (fmul piOverTwoFloat (gain_update e s (compressorGain ls))))
             (meteringGain ls)
     \<and> delayLine ls' = delay'
     \<and> samples ls' = samples'"
proof -
  obtain delay' cin where pw:
    "predelay_write (blk_numberOfChannels c) (frameIndex ls) (preDelayWriteIndex ls)
       (samples ls) (delayLine ls) = Some (delay', cin)"
    using assms unfolding sample_step_def by (auto split: option.splits)
  obtain samples' where ag:
    "apply_gain (blk_numberOfChannels c) (frameIndex ls) (preDelayReadIndex ls)
         (fadd (blk_dryMix c)
            (fmul (fmul (blk_wetMix c) (blk_masterLinearGain c))
               (sinf (fmul piOverTwoFloat (gain_update e s (compressorGain ls))))))
         delay' (samples ls) = Some samples'"
    using assms pw unfolding sample_step_def Let_def by (auto split: option.splits)
  have "ls' = \<lparr>frameIndex = frameIndex ls + 1,
        preDelayReadIndex = (preDelayReadIndex ls + 1) AND MaxPreDelayFramesMask,
        preDelayWriteIndex = (preDelayWriteIndex ls + 1) AND MaxPreDelayFramesMask,
        detectorAverage = detector_update (blk_satReleaseFrames c)
             (detector_attenuation st (blk_k c) cin) (detectorAverage ls),
        compressorGain = gain_update e s (compressorGain ls),
        meteringGain = metering_update (m_meteringReleaseK st)
             (sinf (fmul piOverTwoFloat (gain_update e s (compressorGain ls))))
             (meteringGain ls),
        delayLine = delay',
        samples = samples'\<rparr>"
    using assms pw ag unfolding sample_step_def Let_def by simp
  then show ?thesis using pw ag by (simp add: and_mask_mod)
qed

lemma sample_step_succeeds:
  assumes "blk_numberOfChannels c \<le> length (samples ls)"
    and "blk_numberOfChannels c \<le> length (delayLine ls)"
    and "\<forall>i < blk_numberOfChannels c. frameIndex ls < length (samples ls ! i)"
    and "\<forall>i < blk_numberOfChannels c. length (delayLine ls ! i) = MaxPreDelayFrames"
    and "preDelayReadIndex ls < MaxPreDelayFrames" "preDelayWriteIndex ls < MaxPreDelayFrames"
  shows "\<exists>ls'. sample_step c st s e ls = Some ls'"
proof -
  obtain delay' cin where pw:
    "predelay_write (blk_numberOfChannels c) (frameIndex ls) (preDelayWriteIndex ls)
       (samples ls) (delayLine ls) = Some (delay', cin)"
    using predelay_write_succeeds[OF assms(1,2,3)] assms(4,6) by fastforce
  from nth_length_of_shape[OF predelay_write_shape[OF pw]]
  have sh: "length delay' = length (delayLine ls)"
    "\<forall>i < blk_numberOfChannels c. length (delay' ! i) = MaxPreDelayFrames"
    using assms(2,4) by auto
  have "\<exists>b'. apply_gain (blk_numberOfChannels c) (frameIndex ls) (preDelayReadIndex ls) g
          delay' (samples ls) = Some b'" for g
    using apply_gain_succeeds[OF assms(1) _ assms(3)] sh assms(2,5) by fastforce
  then show ?thesis
    using pw unfolding sample_step_def Let_def by (fastforce split: option.splits)
qed

subsection \<open>The inner loop\<close>

lemma sample_step_ls_ok:
  assumes "ls_ok (blk_numberOfChannels c) (Suc n) ls" "sample_step c st s e ls = Some ls'"
  shows "ls_ok (blk_numberOfChannels c) n ls'"
proof -
  from sample_step_Some[OF assms(2)] obtain delay' cin samples' where
    pw: "predelay_write (blk_numberOfChannels c) (frameIndex ls) (preDelayWriteIndex ls)
       (samples ls) (delayLine ls) = Some (delay', cin)"
    and ag: "apply_gain (blk_numberOfChannels c) (frameIndex ls) (preDelayReadIndex ls)
         (fadd (blk_dryMix c)
            (fmul (fmul (blk_wetMix c) (blk_masterLinearGain c))
               (sinf (fmul piOverTwoFloat (gain_update e s (compressorGain ls))))))
         delay' (samples ls) = Some samples'"
    and f: "frameIndex ls' = frameIndex ls + 1"
    and r: "preDelayReadIndex ls' = (preDelayReadIndex ls + 1) mod MaxPreDelayFrames"
    and w: "preDelayWriteIndex ls' = (preDelayWriteIndex ls + 1) mod MaxPreDelayFrames"
    and d: "delayLine ls' = delay'" and b: "samples ls' = samples'"
    by blast
  note sd = nth_length_of_shape[OF predelay_write_shape[OF pw]]
  note sb = nth_length_of_shape[OF apply_gain_shape[OF ag]]
  have "0 < MaxPreDelayFrames" by (simp add: MaxPreDelayFrames_def)
  then show ?thesis
    using assms(1) sd sb f r w d b unfolding ls_ok_def by auto
qed

lemma sample_step_succeeds_ok:
  assumes "ls_ok (blk_numberOfChannels c) (Suc n) ls"
  shows "\<exists>ls'. sample_step c st s e ls = Some ls'"
  using assms by (intro sample_step_succeeds) (auto simp: ls_ok_def)

lemma sample_loop_succeeds:
  "ls_ok (blk_numberOfChannels c) n ls \<Longrightarrow> \<exists>ls' tr. sample_loop n c st s e ls = Some (ls', tr)"
proof (induction n arbitrary: ls)
  case 0
  then show ?case by simp
next
  case (Suc n)
  from sample_step_succeeds_ok[OF Suc.prems] obtain ls1 where
    s1: "sample_step c st s e ls = Some ls1" by blast
  from Suc.IH[OF sample_step_ls_ok[OF Suc.prems s1]] s1 show ?case by auto
qed

lemma sample_loop_Suc_Some:
  assumes "sample_loop (Suc n) c st s e ls = Some (ls', tr)"
  shows "\<exists>ls1 tr1. sample_step c st s e ls = Some ls1
           \<and> sample_loop n c st s e ls1 = Some (ls', tr1) \<and> tr = observe ls1 # tr1"
  using assms by (auto split: option.splits)

text \<open>A property of the loop's variables that every iteration keeps holds after the loop
  and of everything recorded.\<close>

lemma sample_loop_invariant:
  assumes "sample_loop n c st s e ls = Some (ls', tr)" "P ls"
    and "\<And>l l'. P l \<Longrightarrow> sample_step c st s e l = Some l' \<Longrightarrow> P l'"
  shows "P ls' \<and> (\<forall>ob \<in> set tr. \<exists>l. P l \<and> ob = observe l)"
  using assms(1,2)
proof (induction n arbitrary: ls tr)
  case 0
  then show ?case by simp
next
  case (Suc n)
  from sample_loop_Suc_Some[OF Suc.prems(1)] obtain ls1 tr1 where
    s1: "sample_step c st s e ls = Some ls1"
    and l1: "sample_loop n c st s e ls1 = Some (ls', tr1)" and tr: "tr = observe ls1 # tr1"
    by blast
  have p1: "P ls1" using assms(3)[OF Suc.prems(2) s1] .
  from Suc.IH[OF l1 p1] p1 tr show ?case by auto
qed

lemma sample_loop_counts:
  assumes "sample_loop n c st s e ls = Some (ls', tr)"
  shows "frameIndex ls' = frameIndex ls + n \<and> length tr = n"
  using assms
proof (induction n arbitrary: ls tr)
  case 0
  then show ?case by simp
next
  case (Suc n)
  from sample_loop_Suc_Some[OF Suc.prems(1)] obtain ls1 tr1 where
    s1: "sample_step c st s e ls = Some ls1"
    and l1: "sample_loop n c st s e ls1 = Some (ls', tr1)" and tr: "tr = observe ls1 # tr1"
    by blast
  from sample_step_Some[OF s1] have "frameIndex ls1 = frameIndex ls + 1" by blast
  then show ?case using Suc.IH[OF l1] tr by simp
qed

lemma sample_loop_ls_ok:
  assumes "sample_loop n c st s e ls = Some (ls', tr)" "ls_ok (blk_numberOfChannels c) (n + k) ls"
  shows "ls_ok (blk_numberOfChannels c) k ls'"
  using assms
proof (induction n arbitrary: ls tr)
  case 0
  then show ?case by simp
next
  case (Suc n)
  from sample_loop_Suc_Some[OF Suc.prems(1)] obtain ls1 tr1 where
    s1: "sample_step c st s e ls = Some ls1"
    and l1: "sample_loop n c st s e ls1 = Some (ls', tr1)"
    by blast
  have "ls_ok (blk_numberOfChannels c) (Suc (n + k)) ls" using Suc.prems(2) by simp
  from Suc.IH[OF l1 sample_step_ls_ok[OF this s1]] show ?case .
qed

subsection \<open>Divisions\<close>

lemma envelope_decision_state:
  "\<exists>b. fst (envelope_decision c st)
     = st\<lparr>m_detectorAverage := fix_gremlins (Fin 1) (m_detectorAverage st),
          m_maxAttackCompressionDiffDb := b\<rparr>"
  unfolding envelope_decision_def Let_def by (auto split: if_splits)

lemma division_Some:
  assumes "division c st buf frame = Some (st', buf', frame', tr)"
  shows "\<exists>st1 s e ls. envelope_decision c st = (st1, s, e)
     \<and> sample_loop nDivisionFrames c st1 s e (division_locals st1 buf frame) = Some (ls, tr)
     \<and> st' = st1\<lparr>m_preDelayReadIndex := preDelayReadIndex ls,
                  m_preDelayWriteIndex := preDelayWriteIndex ls,
                  m_detectorAverage := detectorAverage ls,
                  m_compressorGain := compressorGain ls,
                  m_meteringGain := meteringGain ls,
                  mPreDelayBuffer := delayLine ls\<rparr>
     \<and> buf' = samples ls \<and> frame' = frameIndex ls"
proof -
  obtain st1 s e where ed: "envelope_decision c st = (st1, s, e)"
    by (cases "envelope_decision c st") auto
  show ?thesis
    using assms unfolding division_def ed division_locals_def Let_def
    by (auto split: option.splits)
qed

lemma division_ok_locals:
  "division_ok nch n st1 buf frame = ls_ok nch n (division_locals st1 buf frame)"
  by (simp add: division_ok_def ls_ok_def division_locals_def)

lemma division_ok_envelope:
  "division_ok nch n (fst (envelope_decision c st)) buf frame = division_ok nch n st buf frame"
proof -
  obtain b where "fst (envelope_decision c st)
     = st\<lparr>m_detectorAverage := fix_gremlins (Fin 1) (m_detectorAverage st),
          m_maxAttackCompressionDiffDb := b\<rparr>"
    using envelope_decision_state by blast
  then show ?thesis by (simp add: division_ok_def)
qed

lemma division_succeeds:
  assumes "division_ok (blk_numberOfChannels c) (nDivisionFrames + k) st buf frame"
  shows "\<exists>r. division c st buf frame = Some r"
proof -
  obtain st1 s e where ed: "envelope_decision c st = (st1, s, e)"
    by (cases "envelope_decision c st") auto
  have "division_ok (blk_numberOfChannels c) (nDivisionFrames + k) st1 buf frame"
    using division_ok_envelope[of _ _ c st] assms ed by simp
  then have "ls_ok (blk_numberOfChannels c) nDivisionFrames (division_locals st1 buf frame)"
    by (auto simp: division_ok_locals ls_ok_def)
  from sample_loop_succeeds[OF this, of st1 s e] show ?thesis
    unfolding division_def ed division_locals_def Let_def by auto
qed

lemma division_keeps_ok:
  assumes "division c st buf frame = Some (st', buf', frame', tr)"
    and "division_ok (blk_numberOfChannels c) (nDivisionFrames + k) st buf frame"
  shows "division_ok (blk_numberOfChannels c) k st' buf' frame'
         \<and> frame' = frame + nDivisionFrames \<and> length tr = nDivisionFrames"
proof -
  from division_Some[OF assms(1)] obtain st1 s e ls where
    ed: "envelope_decision c st = (st1, s, e)"
    and sl: "sample_loop nDivisionFrames c st1 s e (division_locals st1 buf frame) = Some (ls, tr)"
    and st': "st' = st1\<lparr>m_preDelayReadIndex := preDelayReadIndex ls,
                  m_preDelayWriteIndex := preDelayWriteIndex ls,
                  m_detectorAverage := detectorAverage ls,
                  m_compressorGain := compressorGain ls,
                  m_meteringGain := meteringGain ls,
                  mPreDelayBuffer := delayLine ls\<rparr>"
    and b': "buf' = samples ls" and f': "frame' = frameIndex ls"
    by blast
  have "division_ok (blk_numberOfChannels c) (nDivisionFrames + k) st1 buf frame"
    using division_ok_envelope[of _ _ c st] assms(2) ed by simp
  then have "ls_ok (blk_numberOfChannels c) (nDivisionFrames + k) (division_locals st1 buf frame)"
    by (simp add: division_ok_locals)
  from sample_loop_ls_ok[OF sl this] sample_loop_counts[OF sl]
  show ?thesis
    by (simp add: st' b' f' division_ok_def ls_ok_def division_locals_def)
qed

lemma divisions_Suc_Some:
  assumes "divisions (Suc n) c st buf frame = Some (st', buf', frame', tr)"
  shows "\<exists>st1 buf1 frame1 tr1 tr2. division c st buf frame = Some (st1, buf1, frame1, tr1)
     \<and> divisions n c st1 buf1 frame1 = Some (st', buf', frame', tr2) \<and> tr = tr1 @ tr2"
  using assms by (auto split: option.splits)

lemma divisions_succeeds:
  "division_ok (blk_numberOfChannels c) (n * nDivisionFrames) st buf frame
     \<Longrightarrow> \<exists>r. divisions n c st buf frame = Some r"
proof (induction n arbitrary: st buf frame)
  case 0
  then show ?case by simp
next
  case (Suc n)
  have ok: "division_ok (blk_numberOfChannels c) (nDivisionFrames + n * nDivisionFrames)
              st buf frame"
    using Suc.prems by simp
  from division_succeeds[OF ok] obtain st1 buf1 frame1 tr1 where
    d: "division c st buf frame = Some (st1, buf1, frame1, tr1)"
    by (metis prod_cases4)
  from division_keeps_ok[OF d ok]
  have "division_ok (blk_numberOfChannels c) (n * nDivisionFrames) st1 buf1 frame1" by blast
  from Suc.IH[OF this] obtain r where "divisions n c st1 buf1 frame1 = Some r" by blast
  then show ?case using d by (cases r) auto
qed

text \<open>A property of the state, the buffer and the frame index that every division keeps,
  with a property of what it records, holds after all divisions.\<close>

lemma divisions_invariant:
  assumes "divisions n c st buf frame = Some (st', buf', frame', tr)" "Q st buf frame"
    and "\<And>st buf frame st1 buf1 frame1 tr1.
           Q st buf frame \<Longrightarrow> division c st buf frame = Some (st1, buf1, frame1, tr1)
             \<Longrightarrow> Q st1 buf1 frame1 \<and> (\<forall>ob \<in> set tr1. R ob)"
  shows "Q st' buf' frame' \<and> (\<forall>ob \<in> set tr. R ob)"
  using assms(1,2)
proof (induction n arbitrary: st buf frame tr)
  case 0
  then show ?case by simp
next
  case (Suc n)
  from divisions_Suc_Some[OF Suc.prems(1)] obtain st1 buf1 frame1 tr1 tr2 where
    d: "division c st buf frame = Some (st1, buf1, frame1, tr1)"
    and ds: "divisions n c st1 buf1 frame1 = Some (st', buf', frame', tr2)"
    and tr: "tr = tr1 @ tr2"
    by blast
  from assms(3)[OF Suc.prems(2) d] have q1: "Q st1 buf1 frame1" and r1: "\<forall>ob \<in> set tr1. R ob"
    by auto
  from Suc.IH[OF ds q1] r1 tr show ?case by auto
qed

lemma divisions_counts:
  assumes "divisions n c st buf frame = Some (st', buf', frame', tr)"
    and "division_ok (blk_numberOfChannels c) (n * nDivisionFrames + k) st buf frame"
  shows "division_ok (blk_numberOfChannels c) k st' buf' frame'
         \<and> frame' = frame + n * nDivisionFrames \<and> length tr = n * nDivisionFrames"
  using assms
proof (induction n arbitrary: st buf frame tr)
  case 0
  then show ?case by simp
next
  case (Suc n)
  from divisions_Suc_Some[OF Suc.prems(1)] obtain st1 buf1 frame1 tr1 tr2 where
    d: "division c st buf frame = Some (st1, buf1, frame1, tr1)"
    and ds: "divisions n c st1 buf1 frame1 = Some (st', buf', frame', tr2)"
    and tr: "tr = tr1 @ tr2"
    by blast
  have ok: "division_ok (blk_numberOfChannels c)
              (nDivisionFrames + (n * nDivisionFrames + k)) st buf frame"
    using Suc.prems(2) by (simp add: add.assoc)
  from division_keeps_ok[OF d ok]
  have ok1: "division_ok (blk_numberOfChannels c) (n * nDivisionFrames + k) st1 buf1 frame1"
    and f1: "frame1 = frame + nDivisionFrames" and l1: "length tr1 = nDivisionFrames"
    by blast+
  from Suc.IH[OF ds ok1] show ?case using f1 l1 tr by auto
qed

subsection \<open>The whole block\<close>

lemma updateStaticCurveParameters_state:
  "snd (snd (updateStaticCurveParameters dbThreshold dbKnee ratio st))
     = (if curve_parameters_changed dbThreshold dbKnee ratio st
        then recomputed_curve dbThreshold dbKnee ratio st else st)"
  using updateStaticCurveParameters_changed[of dbThreshold dbKnee ratio st]
    updateStaticCurveParameters_unchanged[of dbThreshold dbKnee ratio st]
  by (cases "curve_parameters_changed dbThreshold dbKnee ratio st") simp_all

lemma updateStaticCurveParameters_result:
  "fst (updateStaticCurveParameters dbThreshold dbKnee ratio st)
     = m_K (snd (snd (updateStaticCurveParameters dbThreshold dbKnee ratio st)))"
  using updateStaticCurveParameters_changed[of dbThreshold dbKnee ratio st]
    updateStaticCurveParameters_unchanged[of dbThreshold dbKnee ratio st]
  by (cases "curve_parameters_changed dbThreshold dbKnee ratio st") simp_all

lemma recomputed_curve_frame:
  "sampleRate (recomputed_curve t k r st) = sampleRate st"
  "mPreDelayBuffer (recomputed_curve t k r st) = mPreDelayBuffer st"
  "m_lastPreDelayFrames (recomputed_curve t k r st) = m_lastPreDelayFrames st"
  "m_preDelayReadIndex (recomputed_curve t k r st) = m_preDelayReadIndex st"
  "m_preDelayWriteIndex (recomputed_curve t k r st) = m_preDelayWriteIndex st"
  "m_detectorAverage (recomputed_curve t k r st) = m_detectorAverage st"
  "m_compressorGain (recomputed_curve t k r st) = m_compressorGain st"
  "m_meteringGain (recomputed_curve t k r st) = m_meteringGain st"
  "m_maxAttackCompressionDiffDb (recomputed_curve t k r st) = m_maxAttackCompressionDiffDb st"
  "m_meteringReleaseK (recomputed_curve t k r st) = m_meteringReleaseK st"
  by (simp_all add: recomputed_curve_def Let_def)

lemma block_setup_state:
  "snd (block_setup p buffer st)
     = snd (snd (updateStaticCurveParameters (paramThreshold p) (paramKnee p) (paramRatio p) st))"
  unfolding block_setup_def Let_def by (simp only: snd_conv)

lemma block_setup_locals:
  "blk_numberOfChannels (fst (block_setup p buffer st)) = length (bufChannels buffer) mod 2 ^ 32"
  "blk_k (fst (block_setup p buffer st)) = m_K (snd (block_setup p buffer st))"
  "blk_satReleaseFrames (fst (block_setup p buffer st))
     = fmul (Fin 0.0025) (of_size_t (sampleRate st))"
  unfolding block_setup_def Let_def
  by (simp_all only: fst_conv snd_conv block_locals.simps updateStaticCurveParameters_result)

lemma block_setup_frame:
  "sampleRate (snd (block_setup p buffer st)) = sampleRate st"
  "mPreDelayBuffer (snd (block_setup p buffer st)) = mPreDelayBuffer st"
  "m_lastPreDelayFrames (snd (block_setup p buffer st)) = m_lastPreDelayFrames st"
  "m_preDelayReadIndex (snd (block_setup p buffer st)) = m_preDelayReadIndex st"
  "m_preDelayWriteIndex (snd (block_setup p buffer st)) = m_preDelayWriteIndex st"
  "m_detectorAverage (snd (block_setup p buffer st)) = m_detectorAverage st"
  "m_compressorGain (snd (block_setup p buffer st)) = m_compressorGain st"
  "m_meteringGain (snd (block_setup p buffer st)) = m_meteringGain st"
  "m_maxAttackCompressionDiffDb (snd (block_setup p buffer st)) = m_maxAttackCompressionDiffDb st"
  "m_meteringReleaseK (snd (block_setup p buffer st)) = m_meteringReleaseK st"
  by (simp_all add: block_setup_state updateStaticCurveParameters_state recomputed_curve_frame)

lemma process_Some:
  assumes "process p buffer st = Some (st', buffer', tr)"
  shows "\<exists>st2 buf3 frame3.
     setPreDelayTime (Fin 0.006) (snd (block_setup p buffer st)) = Some st2
     \<and> divisions ((bufNumFrames buffer mod 2 ^ 32) div nDivisionFrames)
         (fst (block_setup p buffer st)) st2 (bufChannels buffer) 0
         = Some (st', buf3, frame3, tr)
     \<and> buffer' = buffer\<lparr>bufChannels := buf3\<rparr>"
  using assms unfolding process_def Let_def by (auto split: option.splits)

lemma wf_state_setPreDelayTime:
  assumes "setPreDelayTime t st = Some st2" "wf_state st"
  shows "wf_state st2 \<and> length (mPreDelayBuffer st2) = length (mPreDelayBuffer st)"
proof -
  obtain n where n: "to_unsigned (fmul t (of_size_t (sampleRate st))) = Some n"
    using assms(1) unfolding setPreDelayTime_def by (auto split: option.splits)
  have "min n (MaxPreDelayFrames - 1) < MaxPreDelayFrames"
    by (simp add: MaxPreDelayFrames_def)
  then show ?thesis
    using assms unfolding setPreDelayTime_Some[OF n]
    by (auto simp: wf_state_def zero_buffer_def list_all_iff split: if_splits)
qed

lemma division_ok_of_wf:
  assumes "wf_state st" "wf_buffer b" "nch \<le> length (bufChannels b)"
    "nch \<le> length (mPreDelayBuffer st)" "n \<le> bufNumFrames b"
  shows "division_ok nch n st (bufChannels b) 0"
  using assms by (auto simp: division_ok_def wf_state_def wf_buffer_def list_all_length)

lemma process_succeeds:
  assumes "wf_state st" "wf_buffer buffer"
    and "length (bufChannels buffer) \<le> length (mPreDelayBuffer st)"
    and "to_unsigned (fmul (Fin 0.006) (of_size_t (sampleRate st))) = Some n"
  shows "\<exists>st' buffer' tr. process p buffer st = Some (st', buffer', tr)"
proof -
  let ?c = "fst (block_setup p buffer st)" and ?st1 = "snd (block_setup p buffer st)"
  let ?m = "(bufNumFrames buffer mod 2 ^ 32) div nDivisionFrames"
  have wf1: "wf_state ?st1"
    using assms(1) by (simp add: wf_state_def block_setup_frame)
  have "to_unsigned (fmul (Fin 0.006) (of_size_t (sampleRate ?st1))) = Some n"
    using assms(4) by (simp add: block_setup_frame)
  then obtain st2 where s2: "setPreDelayTime (Fin 0.006) ?st1 = Some st2"
    using setPreDelayTime_Some by blast
  from wf_state_setPreDelayTime[OF s2 wf1]
  have wf2: "wf_state st2" and len: "length (mPreDelayBuffer st2) = length (mPreDelayBuffer st)"
    by (simp_all add: block_setup_frame)
  have nch: "blk_numberOfChannels ?c \<le> length (bufChannels buffer)"
    by (simp add: block_setup_locals)
  have fr: "?m * nDivisionFrames \<le> bufNumFrames buffer"
  proof -
    have "?m * nDivisionFrames \<le> bufNumFrames buffer mod 2 ^ 32"
      by (simp add: nDivisionFrames_def)
    also have "\<dots> \<le> bufNumFrames buffer" by simp
    finally show ?thesis .
  qed
  have "division_ok (blk_numberOfChannels ?c) (?m * nDivisionFrames) st2 (bufChannels buffer) 0"
    using division_ok_of_wf[OF wf2 assms(2) nch _ fr] nch assms(3) len by simp
  from divisions_succeeds[OF this] obtain r where
    "divisions ?m ?c st2 (bufChannels buffer) 0 = Some r" by blast
  then show ?thesis
    using s2 unfolding process_def Let_def by (cases r) auto
qed

subsection \<open>What a block leaves alone\<close>

lemma same_config_refl: "same_config st st"
  by (simp add: same_config_def)

lemma same_config_trans: "same_config a b \<Longrightarrow> same_config b c \<Longrightarrow> same_config a c"
  by (simp add: same_config_def)

lemma envelope_decision_same_config: "same_config st (fst (envelope_decision c st))"
proof -
  obtain b where "fst (envelope_decision c st)
     = st\<lparr>m_detectorAverage := fix_gremlins (Fin 1) (m_detectorAverage st),
          m_maxAttackCompressionDiffDb := b\<rparr>"
    using envelope_decision_state by blast
  then show ?thesis by (simp add: same_config_def)
qed

lemma division_same_config:
  assumes "division c st buf frame = Some (st', buf', frame', tr)"
  shows "same_config st st'"
proof -
  from division_Some[OF assms] obtain st1 s e ls where
    ed: "envelope_decision c st = (st1, s, e)"
    and sl: "sample_loop nDivisionFrames c st1 s e (division_locals st1 buf frame) = Some (ls, tr)"
    and st': "st' = st1\<lparr>m_preDelayReadIndex := preDelayReadIndex ls,
                  m_preDelayWriteIndex := preDelayWriteIndex ls,
                  m_detectorAverage := detectorAverage ls,
                  m_compressorGain := compressorGain ls,
                  m_meteringGain := meteringGain ls,
                  mPreDelayBuffer := delayLine ls\<rparr>"
    and b': "buf' = samples ls" and f': "frame' = frameIndex ls"
    by blast
  have "same_config st st1" using envelope_decision_same_config[of st c] ed by simp
  moreover have "same_config st1 st'" by (simp add: st' same_config_def)
  ultimately show ?thesis by (rule same_config_trans)
qed

lemma divisions_same_config:
  assumes "divisions n c st buf frame = Some (st', buf', frame', tr)"
  shows "same_config st st'"
proof -
  have "same_config st st' \<and> (\<forall>ob \<in> set tr. True)"
    by (rule divisions_invariant[OF assms, where Q = "\<lambda>s b f. same_config st s"])
       (auto intro: same_config_refl same_config_trans division_same_config)
  then show ?thesis by simp
qed

subsection \<open>The indices of the look-ahead buffer\<close>

lemma delay_invariant_initialize: "delay_invariant (initialize sr nch)"
  by (simp add: delay_invariant_def initialize_def reset_def DefaultPreDelayFrames_def
      MaxPreDelayFrames_def)

lemma delay_invariant_setPreDelayTime:
  assumes "setPreDelayTime t st = Some st'" "delay_invariant st"
  shows "delay_invariant st'"
proof -
  obtain n where n: "to_unsigned (fmul t (of_size_t (sampleRate st))) = Some n"
    using assms(1) unfolding setPreDelayTime_def by (auto split: option.splits)
  have "min n (MaxPreDelayFrames - 1) < MaxPreDelayFrames"
    by (simp add: MaxPreDelayFrames_def)
  then show ?thesis
    using assms unfolding setPreDelayTime_Some[OF n]
    by (auto simp: delay_invariant_def split: if_splits)
qed

lemma delay_invariant_reset:
  "delay_invariant (reset st) \<longleftrightarrow> m_lastPreDelayFrames st mod MaxPreDelayFrames = DefaultPreDelayFrames"
  by (auto simp: delay_invariant_def reset_def)

lemma index_step:
  assumes "w = (r + d) mod MaxPreDelayFrames"
  shows "(w + 1) mod MaxPreDelayFrames = ((r + 1) mod MaxPreDelayFrames + d) mod MaxPreDelayFrames"
proof -
  have "(w + 1) mod MaxPreDelayFrames = (r + d + 1) mod MaxPreDelayFrames"
    unfolding assms by (simp add: mod_Suc_eq)
  also have "\<dots> = ((r + 1) + d) mod MaxPreDelayFrames" by (simp add: add.commute add.left_commute)
  also have "\<dots> = ((r + 1) mod MaxPreDelayFrames + d) mod MaxPreDelayFrames"
    by (simp only: mod_add_left_eq)
  finally show ?thesis .
qed

lemma sample_step_indices:
  assumes "sample_step c st s e ls = Some ls'"
    and "preDelayWriteIndex ls = (preDelayReadIndex ls + d) mod MaxPreDelayFrames"
  shows "preDelayWriteIndex ls' = (preDelayReadIndex ls' + d) mod MaxPreDelayFrames"
proof -
  from sample_step_Some[OF assms(1)]
  have "preDelayReadIndex ls' = (preDelayReadIndex ls + 1) mod MaxPreDelayFrames"
    "preDelayWriteIndex ls' = (preDelayWriteIndex ls + 1) mod MaxPreDelayFrames"
    by blast+
  then show ?thesis using index_step[OF assms(2)] by simp
qed

lemma division_delay_invariant:
  assumes "division c st buf frame = Some (st', buf', frame', tr)" "delay_invariant st"
  shows "delay_invariant st'
         \<and> (\<forall>ob \<in> set tr. obsWriteIndex ob
               = (obsReadIndex ob + m_lastPreDelayFrames st) mod MaxPreDelayFrames)"
proof -
  from division_Some[OF assms(1)] obtain st1 s e ls where
    ed: "envelope_decision c st = (st1, s, e)"
    and sl: "sample_loop nDivisionFrames c st1 s e (division_locals st1 buf frame) = Some (ls, tr)"
    and st': "st' = st1\<lparr>m_preDelayReadIndex := preDelayReadIndex ls,
                  m_preDelayWriteIndex := preDelayWriteIndex ls,
                  m_detectorAverage := detectorAverage ls,
                  m_compressorGain := compressorGain ls,
                  m_meteringGain := meteringGain ls,
                  mPreDelayBuffer := delayLine ls\<rparr>"
    and b': "buf' = samples ls" and f': "frame' = frameIndex ls"
    by blast
  obtain b where st1: "st1 = st\<lparr>m_detectorAverage := fix_gremlins (Fin 1) (m_detectorAverage st),
          m_maxAttackCompressionDiffDb := b\<rparr>"
    using envelope_decision_state[of c st] ed by auto
  let ?P = "\<lambda>l. preDelayWriteIndex l
              = (preDelayReadIndex l + m_lastPreDelayFrames st) mod MaxPreDelayFrames"
  have p0: "?P (division_locals st1 buf frame)"
    using assms(2) by (simp add: division_locals_def st1 delay_invariant_def)
  have "?P ls \<and> (\<forall>ob \<in> set tr. \<exists>l. ?P l \<and> ob = observe l)"
    by (rule sample_loop_invariant[where P = ?P, OF sl p0]) (rule sample_step_indices)
  then show ?thesis by (auto simp: st' st1 delay_invariant_def observe_def)
qed

lemma process_delay_invariant:
  assumes "process p buffer st = Some (st', buffer', tr)" "delay_invariant st"
  shows "delay_invariant st'
         \<and> (\<forall>ob \<in> set tr. obsWriteIndex ob
               = (obsReadIndex ob + m_lastPreDelayFrames st') mod MaxPreDelayFrames)"
proof -
  from process_Some[OF assms(1)] obtain st2 buf3 frame3 where
    s2: "setPreDelayTime (Fin 0.006) (snd (block_setup p buffer st)) = Some st2"
    and ds: "divisions ((bufNumFrames buffer mod 2 ^ 32) div nDivisionFrames)
         (fst (block_setup p buffer st)) st2 (bufChannels buffer) 0
         = Some (st', buf3, frame3, tr)"
    and b3: "buffer' = buffer\<lparr>bufChannels := buf3\<rparr>"
    by blast
  have "delay_invariant (snd (block_setup p buffer st))"
    using assms(2) by (simp add: delay_invariant_def block_setup_frame)
  from delay_invariant_setPreDelayTime[OF s2 this] have d2: "delay_invariant st2" .
  let ?Q = "\<lambda>s (b::flt list list) (f::nat).
              delay_invariant s \<and> m_lastPreDelayFrames s = m_lastPreDelayFrames st2"
  let ?R = "\<lambda>ob. obsWriteIndex ob
              = (obsReadIndex ob + m_lastPreDelayFrames st2) mod MaxPreDelayFrames"
  have "?Q st' buf3 frame3 \<and> (\<forall>ob \<in> set tr. ?R ob)"
  proof (rule divisions_invariant[OF ds, where Q = ?Q and R = ?R])
    show "?Q st2 (bufChannels buffer) 0" using d2 by simp
  next
    fix s b f s1 b1 f1 tr1
    assume q: "?Q s b f"
      and d: "division (fst (block_setup p buffer st)) s b f = Some (s1, b1, f1, tr1)"
    from division_delay_invariant[OF d] division_same_config[OF d] q
    show "?Q s1 b1 f1 \<and> (\<forall>ob \<in> set tr1. ?R ob)"
      by (auto simp: same_config_def)
  qed
  then show ?thesis by auto
qed

subsection \<open>The reset after a block\<close>

lemma wf_state_initialize: "wf_state (initialize sr nch)"
  by (simp add: wf_state_def initialize_def reset_def zero_buffer_def list_all_iff
      MaxPreDelayFrames_def DefaultPreDelayFrames_def)

lemma initialize_frame:
  "sampleRate (initialize sr nch) = sr"
  "length (mPreDelayBuffer (initialize sr nch)) = nch"
  "m_lastPreDelayFrames (initialize sr nch) = DefaultPreDelayFrames"
  "m_detectorAverage (initialize sr nch) = Fin 0"
  "m_compressorGain (initialize sr nch) = Fin 1"
  by (simp_all add: initialize_def reset_def zero_buffer_def)

lemma process_lastPreDelayFrames:
  assumes "process p buffer st = Some (st', buffer', tr)"
    and "to_unsigned (fmul (Fin 0.006) (of_size_t (sampleRate st))) = Some n"
  shows "m_lastPreDelayFrames st' = min n (MaxPreDelayFrames - 1)"
    and "sampleRate st' = sampleRate st"
proof -
  from process_Some[OF assms(1)] obtain st2 buf3 frame3 where
    s2: "setPreDelayTime (Fin 0.006) (snd (block_setup p buffer st)) = Some st2"
    and ds: "divisions ((bufNumFrames buffer mod 2 ^ 32) div nDivisionFrames)
         (fst (block_setup p buffer st)) st2 (bufChannels buffer) 0
         = Some (st', buf3, frame3, tr)"
    and b3: "buffer' = buffer\<lparr>bufChannels := buf3\<rparr>"
    by blast
  have n1: "to_unsigned (fmul (Fin 0.006) (of_size_t (sampleRate (snd (block_setup p buffer st)))))
          = Some n"
    using assms(2) by (simp add: block_setup_frame)
  have "m_lastPreDelayFrames st2 = min n (MaxPreDelayFrames - 1)
        \<and> sampleRate st2 = sampleRate st"
    using s2 unfolding setPreDelayTime_Some[OF n1]
    by (auto simp: block_setup_frame split: if_splits)
  then show "m_lastPreDelayFrames st' = min n (MaxPreDelayFrames - 1)"
    and "sampleRate st' = sampleRate st"
    using divisions_same_config[OF ds] by (simp_all add: same_config_def)
qed

text \<open>
  C2. The invariant \<open>writeIndex = (readIndex + delayFrames) mod capacity\<close> holds after
  \<^verbatim>\<open>initialize()\<close>, is kept by \<^verbatim>\<open>setPreDelayTime\<close> and by every frame of \<^verbatim>\<open>process\<close> (the
  lemmas \<open>delay_invariant_initialize\<close>, \<open>delay_invariant_setPreDelayTime\<close> and
  \<open>process_delay_invariant\<close>), but not by \<^verbatim>\<open>reset()\<close>: at 44100 Hz a block of 32 frames
  leaves the configured delay at 264 frames with the invariant in force, and \<^verbatim>\<open>reset()\<close>
  then sets the read index to 0 and the write index to 256 while the configured delay
  stays 264.
\<close>

theorem reset_breaks_delay_invariant:
  "(case process \<lparr>paramThreshold = Fin (- 24), paramRatio = Fin 12, paramKnee = Fin 30,
                   paramAttackTime = Fin 0.003, paramReleaseTime = Fin 0.25\<rparr>
            \<lparr>bufNumFrames = 32, bufChannels = [replicate 32 (Fin 0)]\<rparr> (initialize 44100 1) of
      None \<Rightarrow> False
    | Some (st, b, tr) \<Rightarrow>
        delay_invariant st
        \<and> m_lastPreDelayFrames (reset st) = 264
        \<and> m_preDelayReadIndex (reset st) = 0
        \<and> m_preDelayWriteIndex (reset st) = 256
        \<and> (m_preDelayReadIndex (reset st) + m_lastPreDelayFrames (reset st))
              mod MaxPreDelayFrames = 264
        \<and> \<not> delay_invariant (reset st))"
proof -
  let ?p = "\<lparr>paramThreshold = Fin (- 24), paramRatio = Fin 12, paramKnee = Fin 30,
             paramAttackTime = Fin 0.003, paramReleaseTime = Fin 0.25\<rparr>"
  let ?b = "\<lparr>bufNumFrames = 32, bufChannels = [replicate 32 (Fin 0)]\<rparr>"
  have n: "to_unsigned (fmul (Fin 0.006) (of_size_t (sampleRate (initialize 44100 1)))) = Some 264"
    by (simp add: initialize_frame of_size_t_def)
  have wb: "wf_buffer ?b" by (simp add: wf_buffer_def)
  have len: "length (bufChannels ?b) \<le> length (mPreDelayBuffer (initialize 44100 1))"
    by (simp add: initialize_frame)
  from process_succeeds[OF wf_state_initialize wb len n, of ?p]
  obtain st b tr where pr: "process ?p ?b (initialize 44100 1) = Some (st, b, tr)" by blast
  from process_lastPreDelayFrames(1)[OF pr n]
  have l: "m_lastPreDelayFrames st = 264" by (simp add: MaxPreDelayFrames_def)
  have d: "delay_invariant st"
    using process_delay_invariant[OF pr delay_invariant_initialize] by simp
  have F: "delay_invariant st
        \<and> m_lastPreDelayFrames (reset st) = 264
        \<and> m_preDelayReadIndex (reset st) = 0
        \<and> m_preDelayWriteIndex (reset st) = 256
        \<and> (m_preDelayReadIndex (reset st) + m_lastPreDelayFrames (reset st))
              mod MaxPreDelayFrames = 264
        \<and> \<not> delay_invariant (reset st)"
    using l d by (simp add: reset_def delay_invariant_def DefaultPreDelayFrames_def
        MaxPreDelayFrames_def)
  show ?thesis unfolding pr option.case prod.case by (rule F)
qed

subsection \<open>The frames after the last division\<close>

lemma sample_step_take:
  assumes "frameIndex ls < m"
  shows "sample_step c st s e (ls\<lparr>samples := map (take m) (samples ls)\<rparr>)
     = map_option (\<lambda>l. l\<lparr>samples := map (take m) (samples l)\<rparr>) (sample_step c st s e ls)"
proof (cases "predelay_write (blk_numberOfChannels c) (frameIndex ls) (preDelayWriteIndex ls)
                (samples ls) (delayLine ls)")
  case None
  then show ?thesis
    using predelay_write_take[OF assms] by (simp add: sample_step_def)
next
  case (Some a)
  obtain delay' cin where a: "a = (delay', cin)" by (cases a) auto
  show ?thesis
    using Some a predelay_write_take[OF assms] apply_gain_take[OF assms]
    unfolding sample_step_def Let_def
    by (auto split: option.splits)
qed

lemma sample_loop_take:
  "frameIndex ls + n \<le> m \<Longrightarrow>
   sample_loop n c st s e (ls\<lparr>samples := map (take m) (samples ls)\<rparr>)
     = map_option (\<lambda>(l, tr). (l\<lparr>samples := map (take m) (samples l)\<rparr>, tr))
         (sample_loop n c st s e ls)"
proof (induction n arbitrary: ls)
  case 0
  then show ?case by simp
next
  case (Suc n)
  have lt: "frameIndex ls < m" using Suc.prems by simp
  show ?case
  proof (cases "sample_step c st s e ls")
    case None
    then show ?thesis using sample_step_take[OF lt, of c st s e] by simp
  next
    case (Some ls1)
    from sample_step_Some[OF Some] have "frameIndex ls1 = frameIndex ls + 1" by blast
    then have "frameIndex ls1 + n \<le> m" using Suc.prems by simp
    from Suc.IH[OF this] show ?thesis
      using Some sample_step_take[OF lt, of c st s e]
      by (auto simp: observe_def split: option.splits)
  qed
qed

lemma division_take:
  assumes "frame + nDivisionFrames \<le> m"
  shows "division c st (map (take m) buf) frame
     = map_option (\<lambda>(st', b', f', tr). (st', map (take m) b', f', tr)) (division c st buf frame)"
proof -
  obtain st1 s e where ed: "envelope_decision c st = (st1, s, e)"
    by (cases "envelope_decision c st") auto
  have l: "division_locals st1 (map (take m) buf) frame
           = (division_locals st1 buf frame)
               \<lparr>samples := map (take m) (samples (division_locals st1 buf frame))\<rparr>"
    by (simp add: division_locals_def)
  have f: "frameIndex (division_locals st1 buf frame) + nDivisionFrames \<le> m"
    using assms by (simp add: division_locals_def)
  have d: "division c st b frame
      = (case sample_loop nDivisionFrames c st1 s e (division_locals st1 b frame) of
           None \<Rightarrow> None
         | Some (ls, tr) \<Rightarrow>
             Some (st1\<lparr>m_preDelayReadIndex := preDelayReadIndex ls,
                       m_preDelayWriteIndex := preDelayWriteIndex ls,
                       m_detectorAverage := detectorAverage ls,
                       m_compressorGain := compressorGain ls,
                       m_meteringGain := meteringGain ls,
                       mPreDelayBuffer := delayLine ls\<rparr>,
                   samples ls, frameIndex ls, tr))" for b
    unfolding division_def ed division_locals_def Let_def by simp
  show ?thesis
    unfolding d l sample_loop_take[OF f]
    by (auto split: option.splits)
qed

lemma divisions_frame:
  "divisions n c st buf frame = Some (st', buf', frame', tr)
     \<Longrightarrow> frame' = frame + n * nDivisionFrames \<and> length tr = n * nDivisionFrames"
proof (induction n arbitrary: st buf frame tr)
  case 0
  then show ?case by simp
next
  case (Suc n)
  from divisions_Suc_Some[OF Suc.prems] obtain st1 buf1 frame1 tr1 tr2 where
    d: "division c st buf frame = Some (st1, buf1, frame1, tr1)"
    and ds: "divisions n c st1 buf1 frame1 = Some (st', buf', frame', tr2)"
    and tr: "tr = tr1 @ tr2"
    by blast
  from division_Some[OF d] obtain st1' s e ls where
    ed: "envelope_decision c st = (st1', s, e)"
    and sl: "sample_loop nDivisionFrames c st1' s e (division_locals st1' buf frame)
               = Some (ls, tr1)"
    and st1: "st1 = st1'\<lparr>m_preDelayReadIndex := preDelayReadIndex ls,
                  m_preDelayWriteIndex := preDelayWriteIndex ls,
                  m_detectorAverage := detectorAverage ls,
                  m_compressorGain := compressorGain ls,
                  m_meteringGain := meteringGain ls,
                  mPreDelayBuffer := delayLine ls\<rparr>"
    and b1: "buf1 = samples ls" and f1: "frame1 = frameIndex ls"
    by blast
  from sample_loop_counts[OF sl]
  have "frame1 = frame + nDivisionFrames" "length tr1 = nDivisionFrames"
    by (simp_all add: f1 division_locals_def)
  then show ?case using Suc.IH[OF ds] tr by auto
qed

lemma divisions_take:
  "frame + n * nDivisionFrames \<le> m \<Longrightarrow>
   divisions n c st (map (take m) buf) frame
     = map_option (\<lambda>(st', b', f', tr). (st', map (take m) b', f', tr))
         (divisions n c st buf frame)"
proof (induction n arbitrary: st buf frame)
  case 0
  then show ?case by simp
next
  case (Suc n)
  have le: "frame + nDivisionFrames \<le> m" using Suc.prems by simp
  show ?case
  proof (cases "division c st buf frame")
    case None
    then show ?thesis using division_take[OF le, of c st buf] by simp
  next
    case (Some r)
    obtain st1 buf1 frame1 tr1 where r: "r = (st1, buf1, frame1, tr1)" by (cases r) auto
    have d: "division c st buf frame = Some (st1, buf1, frame1, tr1)" using Some r by simp
    from division_Some[OF d] obtain st1' s e ls where
      ed: "envelope_decision c st = (st1', s, e)"
      and sl: "sample_loop nDivisionFrames c st1' s e (division_locals st1' buf frame)
                 = Some (ls, tr1)"
      and st1: "st1 = st1'\<lparr>m_preDelayReadIndex := preDelayReadIndex ls,
                  m_preDelayWriteIndex := preDelayWriteIndex ls,
                  m_detectorAverage := detectorAverage ls,
                  m_compressorGain := compressorGain ls,
                  m_meteringGain := meteringGain ls,
                  mPreDelayBuffer := delayLine ls\<rparr>"
      and b1: "buf1 = samples ls" and f1: "frame1 = frameIndex ls"
      by blast
    from sample_loop_counts[OF sl] have "frame1 = frame + nDivisionFrames"
      by (simp add: f1 division_locals_def)
    then have "frame1 + n * nDivisionFrames \<le> m" using Suc.prems by simp
    from Suc.IH[OF this, of st1 buf1] show ?thesis
      using d division_take[OF le, of c st buf]
      by (auto split: option.splits)
  qed
qed

subsection \<open>The remainder is returned as it was\<close>

lemma sample_step_drop:
  assumes "sample_step c st s e ls = Some ls'" "frameIndex ls < m"
  shows "map (drop m) (samples ls') = map (drop m) (samples ls)"
proof -
  from sample_step_Some[OF assms(1)] obtain delay' samples' where
    ag: "apply_gain (blk_numberOfChannels c) (frameIndex ls) (preDelayReadIndex ls)
         (fadd (blk_dryMix c)
            (fmul (fmul (blk_wetMix c) (blk_masterLinearGain c))
               (sinf (fmul piOverTwoFloat (gain_update e s (compressorGain ls))))))
         delay' (samples ls) = Some samples'"
    and b: "samples ls' = samples'"
    by blast
  from apply_gain_drop[OF ag assms(2)] b show ?thesis by simp
qed

lemma sample_loop_drop:
  "sample_loop n c st s e ls = Some (ls', tr) \<Longrightarrow> frameIndex ls + n \<le> m
     \<Longrightarrow> map (drop m) (samples ls') = map (drop m) (samples ls)"
proof (induction n arbitrary: ls tr)
  case 0
  then show ?case by simp
next
  case (Suc n)
  from sample_loop_Suc_Some[OF Suc.prems(1)] obtain ls1 tr1 where
    s1: "sample_step c st s e ls = Some ls1"
    and l1: "sample_loop n c st s e ls1 = Some (ls', tr1)" and tr: "tr = observe ls1 # tr1"
    by blast
  have lt: "frameIndex ls < m" using Suc.prems(2) by simp
  from sample_step_Some[OF s1] have "frameIndex ls1 = frameIndex ls + 1" by blast
  then have "frameIndex ls1 + n \<le> m" using Suc.prems(2) by simp
  from Suc.IH[OF l1 this] sample_step_drop[OF s1 lt] show ?case by simp
qed

lemma division_drop:
  assumes "division c st buf frame = Some (st', buf', frame', tr)"
    and "frame + nDivisionFrames \<le> m"
  shows "map (drop m) buf' = map (drop m) buf"
proof -
  from division_Some[OF assms(1)] obtain st1 s e ls where
    ed: "envelope_decision c st = (st1, s, e)"
    and sl: "sample_loop nDivisionFrames c st1 s e (division_locals st1 buf frame) = Some (ls, tr)"
    and st': "st' = st1\<lparr>m_preDelayReadIndex := preDelayReadIndex ls,
                  m_preDelayWriteIndex := preDelayWriteIndex ls,
                  m_detectorAverage := detectorAverage ls,
                  m_compressorGain := compressorGain ls,
                  m_meteringGain := meteringGain ls,
                  mPreDelayBuffer := delayLine ls\<rparr>"
    and b': "buf' = samples ls" and f': "frame' = frameIndex ls"
    by blast
  have "frameIndex (division_locals st1 buf frame) + nDivisionFrames \<le> m"
    using assms(2) by (simp add: division_locals_def)
  from sample_loop_drop[OF sl this] show ?thesis
    by (simp add: b' division_locals_def)
qed

lemma divisions_drop:
  "divisions n c st buf frame = Some (st', buf', frame', tr)
     \<Longrightarrow> frame + n * nDivisionFrames \<le> m
     \<Longrightarrow> map (drop m) buf' = map (drop m) buf"
proof (induction n arbitrary: st buf frame tr)
  case 0
  then show ?case by simp
next
  case (Suc n)
  from divisions_Suc_Some[OF Suc.prems(1)] obtain st1 buf1 frame1 tr1 tr2 where
    d: "division c st buf frame = Some (st1, buf1, frame1, tr1)"
    and ds: "divisions n c st1 buf1 frame1 = Some (st', buf', frame', tr2)"
    and tr: "tr = tr1 @ tr2"
    by blast
  have le: "frame + nDivisionFrames \<le> m" using Suc.prems(2) by simp
  have "frame1 = frame + 1 * nDivisionFrames"
    using divisions_frame[of 1 c st buf frame st1 buf1 frame1 tr1] d by simp
  then have "frame1 + n * nDivisionFrames \<le> m" using Suc.prems(2) by simp
  from Suc.IH[OF ds this] division_drop[OF d le] show ?case by simp
qed

lemma block_setup_first_frames:
  "block_setup p (first_frames m buffer) st = block_setup p buffer st"
  unfolding block_setup_def first_frames_def by simp

lemma processed_frames_le: "processed_frames buffer \<le> bufNumFrames buffer mod 2 ^ 32"
  by (simp add: processed_frames_def nDivisionFrames_def)

text \<open>
  C9. A call of \<^verbatim>\<open>process\<close> covers \<open>nDivisions * 32\<close> frames: the frames of the buffer from
  there on, the last \<open>numFrames mod 32\<close> of them, are returned as they were in every
  channel, and the state, the frames recorded and the first frames of the result are those
  of the call on the buffer cut to the covered frames, so that the remainder is neither
  read, nor written into the pre-delay buffer, nor advances the state.
\<close>

theorem remainder_frames_ignored:
  assumes "process p buffer st = Some (st', buffer', tr)"
  shows "map (drop (processed_frames buffer)) (bufChannels buffer')
           = map (drop (processed_frames buffer)) (bufChannels buffer)
     \<and> bufNumFrames buffer' = bufNumFrames buffer
     \<and> length tr = processed_frames buffer
     \<and> process p (first_frames (processed_frames buffer) buffer) st
         = Some (st', first_frames (processed_frames buffer) buffer', tr)
     \<and> (bufNumFrames buffer < 2 ^ 32 \<longrightarrow>
          processed_frames buffer = bufNumFrames buffer - bufNumFrames buffer mod 32)"
proof -
  let ?m = "processed_frames buffer"
  let ?n = "(bufNumFrames buffer mod 2 ^ 32) div nDivisionFrames"
  from process_Some[OF assms] obtain st2 buf3 frame3 where
    s2: "setPreDelayTime (Fin 0.006) (snd (block_setup p buffer st)) = Some st2"
    and ds: "divisions ?n (fst (block_setup p buffer st)) st2 (bufChannels buffer) 0
         = Some (st', buf3, frame3, tr)"
    and b3: "buffer' = buffer\<lparr>bufChannels := buf3\<rparr>"
    by blast
  have m: "0 + ?n * nDivisionFrames \<le> ?m" by (simp add: processed_frames_def)
  have a: "map (drop ?m) (bufChannels buffer') = map (drop ?m) (bufChannels buffer)"
    using divisions_drop[OF ds m] by (simp add: b3)
  have b: "length tr = ?m" using divisions_frame[OF ds] by (simp add: processed_frames_def)
  have n': "(bufNumFrames (first_frames ?m buffer) mod 2 ^ 32) div nDivisionFrames = ?n"
  proof -
    have "?m < 2 ^ 32"
      using processed_frames_le[of buffer] by (simp add: less_le_trans[OF _ order_refl] le_less_trans)
    then have "?m mod 2 ^ 32 = ?m" by simp
    then show ?thesis
      by (simp add: first_frames_def processed_frames_def nDivisionFrames_def)
  qed
  have c: "process p (first_frames ?m buffer) st = Some (st', first_frames ?m buffer', tr)"
    unfolding process_def Let_def block_setup_first_frames n'
    using s2 ds divisions_take[OF m, of "fst (block_setup p buffer st)" st2 "bufChannels buffer"]
    by (simp add: first_frames_def b3)
  have d: "?m = bufNumFrames buffer - bufNumFrames buffer mod 32"
    if "bufNumFrames buffer < 2 ^ 32"
    using that by (simp add: processed_frames_def nDivisionFrames_def minus_mod_eq_div_mult)
  show ?thesis using a b c d by (simp add: b3)
qed

theorem remainder_frames_ignored_witness:
  "(case process \<lparr>paramThreshold = Fin (- 24), paramRatio = Fin 12, paramKnee = Fin 30,
                   paramAttackTime = Fin 0.003, paramReleaseTime = Fin 0.25\<rparr>
            \<lparr>bufNumFrames = 40, bufChannels = [replicate 40 (Fin 1)]\<rparr> (initialize 44100 1) of
      None \<Rightarrow> False
    | Some (st', b', tr) \<Rightarrow>
        map (drop 32) (bufChannels b') = [replicate 8 (Fin 1)]
        \<and> length tr = 32
        \<and> process \<lparr>paramThreshold = Fin (- 24), paramRatio = Fin 12, paramKnee = Fin 30,
                     paramAttackTime = Fin 0.003, paramReleaseTime = Fin 0.25\<rparr>
            \<lparr>bufNumFrames = 32, bufChannels = [replicate 32 (Fin 1)]\<rparr> (initialize 44100 1)
          = Some (st', first_frames 32 b', tr))"
proof -
  let ?p = "\<lparr>paramThreshold = Fin (- 24), paramRatio = Fin 12, paramKnee = Fin 30,
             paramAttackTime = Fin 0.003, paramReleaseTime = Fin 0.25\<rparr>"
  let ?b = "\<lparr>bufNumFrames = 40, bufChannels = [replicate 40 (Fin 1)]\<rparr>"
  have n: "to_unsigned (fmul (Fin 0.006) (of_size_t (sampleRate (initialize 44100 1)))) = Some 264"
    by (simp add: initialize_frame of_size_t_def)
  have wb: "wf_buffer ?b" by (simp add: wf_buffer_def)
  have len: "length (bufChannels ?b) \<le> length (mPreDelayBuffer (initialize 44100 1))"
    by (simp add: initialize_frame)
  from process_succeeds[OF wf_state_initialize wb len n, of ?p]
  obtain st' b' tr where pr: "process ?p ?b (initialize 44100 1) = Some (st', b', tr)" by blast
  have m: "processed_frames ?b = 32"
    by (simp add: processed_frames_def nDivisionFrames_def)
  have f: "first_frames 32 ?b = \<lparr>bufNumFrames = 32, bufChannels = [replicate 32 (Fin 1)]\<rparr>"
    by (simp add: first_frames_def)
  have F: "map (drop 32) (bufChannels b') = [replicate 8 (Fin 1)]
        \<and> length tr = 32
        \<and> process ?p \<lparr>bufNumFrames = 32, bufChannels = [replicate 32 (Fin 1)]\<rparr>
            (initialize 44100 1) = Some (st', first_frames 32 b', tr)"
    using remainder_frames_ignored[OF pr] unfolding m f by simp
  show ?thesis unfolding pr option.case prod.case by (rule F)
qed

subsection \<open>The detector stays between 0 and 1\<close>

lemma in01_cases:
  assumes "in01 v"
  obtains x where "v = Fin x" "0 \<le> x" "x \<le> 1"
  using assms by (cases v) auto

lemma decibelsToLinear_nonneg: "nonneg_or_nan (decibelsToLinear y)"
  by (cases y)
     (simp_all add: decibelsToLinear_Fin decibelsToLinear_PInf decibelsToLinear_NInf
        decibelsToLinear_NaN)

lemma fix_gremlins_finite: "is_finite d \<Longrightarrow> is_finite (fix_gremlins d v)"
  by (cases v) (simp_all add: fix_gremlins_def is_finite_def)

lemma fix_gremlins_id: "is_finite v \<Longrightarrow> fix_gremlins d v = v"
  by (cases v) (simp_all add: fix_gremlins_def is_finite_def)

lemma fix_gremlins_special: "isnan v \<or> isinf v \<Longrightarrow> fix_gremlins (Fin x) v = Fin x"
  by (cases v) (simp_all add: fix_gremlins_def)

lemma in01_finite: "in01 v \<Longrightarrow> is_finite v"
  by (cases v) (simp_all add: is_finite_def)

text \<open>The release rate of the detector is not negative: finite or plus infinity.\<close>

lemma satReleaseRate_nonneg:
  assumes "0 \<le> f"
  shows "(\<exists>r\<ge>0. fsub (decibelsToLinear
            (fdiv (std_max (Fin 2) (fneg (linearToDecibels a))) (Fin f))) (Fin 1) = Fin r)
         \<or> fsub (decibelsToLinear
            (fdiv (std_max (Fin 2) (fneg (linearToDecibels a))) (Fin f))) (Fin 1) = PInf"
proof -
  define v where "v = fneg (linearToDecibels a)"
  have m: "(\<exists>t\<ge>2. std_max (Fin 2) v = Fin t) \<or> std_max (Fin 2) v = PInf"
    by (cases v) (auto simp: std_max_def)
  have d: "(\<exists>x\<ge>0. fdiv (std_max (Fin 2) v) (Fin f) = Fin x)
           \<or> fdiv (std_max (Fin 2) v) (Fin f) = PInf"
    using m assms by (auto simp: inf_of_sign_def)
  have "1 \<le> (10::real) powr (x / 20)" if "0 \<le> x" for x :: real
    using that by (simp add: ge_one_powr_ge_zero)
  then show ?thesis
    using d unfolding v_def[symmetric]
    by (auto simp: decibelsToLinear_Fin decibelsToLinear_PInf fsub_def)
qed

lemma detector_update_in01:
  assumes "nonneg_or_nan a" "in01 d" "0 \<le> f"
  shows "in01 (detector_update (Fin f) a d)"
proof -
  obtain rd where d: "d = Fin rd" "0 \<le> rd" "rd \<le> 1"
    using assms(2) by (rule in01_cases)
  define R where "R = fsub (decibelsToLinear
            (fdiv (std_max (Fin 2) (fneg (linearToDecibels a))) (Fin f))) (Fin 1)"
  have R: "(\<exists>r\<ge>0. R = Fin r) \<or> R = PInf"
    unfolding R_def by (rule satReleaseRate_nonneg[OF assms(3)])
  have u: "detector_unclamped (Fin f) a d
             = fadd d (fmul (fsub a d) (if flt_gt a d then R else Fin 1))"
    by (simp add: detector_unclamped_def Let_def R_def)
  show ?thesis
  proof (cases a)
    case (Fin ra)
    then have ra: "0 \<le> ra" using assms(1) by simp
    show ?thesis
    proof (cases "rd < ra")
      case True
      from R show ?thesis
      proof
        assume "\<exists>r\<ge>0. R = Fin r"
        then obtain r where r: "R = Fin r" "0 \<le> r" by blast
        have "0 \<le> (ra - rd) * r" using True r(2) by simp
        then have nn: "0 \<le> rd + (ra - rd) * r" using d(2) by simp
        have uv: "detector_unclamped (Fin f) a d = Fin (rd + (ra - rd) * r)"
          unfolding u using True d(1) Fin r(1) by (simp add: flt_gt_def fsub_def)
        show ?thesis
          unfolding detector_update_def uv using nn
          by (simp add: std_min_def fix_gremlins_def)
      next
        assume "R = PInf"
        then have uv: "detector_unclamped (Fin f) a d = PInf"
          unfolding u using True d(1) Fin by (simp add: flt_gt_def fsub_def inf_of_sign_def)
        show ?thesis
          unfolding detector_update_def uv by (simp add: std_min_def fix_gremlins_def)
      qed
    next
      case False
      then have uv: "detector_unclamped (Fin f) a d = Fin ra"
        unfolding u using d(1) Fin by (simp add: flt_gt_def fsub_def)
      show ?thesis
        unfolding detector_update_def uv using ra False d(3)
        by (simp add: std_min_def fix_gremlins_def)
    qed
  next
    case PInf
    have "isnan (detector_unclamped (Fin f) a d) \<or> isinf (detector_unclamped (Fin f) a d)"
      using R
    proof
      assume "\<exists>r\<ge>0. R = Fin r"
      then obtain r where r: "R = Fin r" "0 \<le> r" by blast
      then show ?thesis
        unfolding u using d(1) PInf
        by (cases "r = 0") (simp_all add: flt_gt_def fsub_def inf_of_sign_def)
    next
      assume "R = PInf"
      then show ?thesis
        unfolding u using d(1) PInf by (simp add: flt_gt_def fsub_def)
    qed
    then show ?thesis
      unfolding detector_update_def
      by (cases "detector_unclamped (Fin f) a d") (simp_all add: std_min_def fix_gremlins_def)
  next
    case NInf
    then show ?thesis using assms(1) by simp
  next
    case NaN
    then have uv: "detector_unclamped (Fin f) a d = NaN"
      unfolding u using d(1) by (simp add: flt_gt_def fsub_def)
    show ?thesis
      unfolding detector_update_def uv by (simp add: std_min_def fix_gremlins_def)
  qed
qed

lemma detector_update_finite: "is_finite (detector_update f a d)"
  unfolding detector_update_def by (rule fix_gremlins_finite) (simp add: is_finite_def)

lemma detector_update_repairs:
  assumes "isnan (detector_unclamped f a d) \<or> isinf (detector_unclamped f a d)"
  shows "detector_update f a d = Fin 1"
  using assms unfolding detector_update_def
  by (cases "detector_unclamped f a d") (simp_all add: std_min_def fix_gremlins_def)

lemma gain_update_in01:
  assumes "nonneg_or_nan e" "in01 s" "in01 g"
  shows "in01 (gain_update e s g)"
proof -
  obtain rs where s: "s = Fin rs" "0 \<le> rs" "rs \<le> 1" using assms(2) by (rule in01_cases)
  obtain rg where g: "g = Fin rg" "0 \<le> rg" "rg \<le> 1" using assms(3) by (rule in01_cases)
  show ?thesis
  proof (cases e)
    case (Fin re)
    then have re: "0 \<le> re" using assms(1) by simp
    show ?thesis
    proof (cases "re < 1")
      case True
      have eq: "rg + (rs - rg) * re = (1 - re) * rg + re * rs" by (simp add: algebra_simps)
      have "0 \<le> (1 - re) * rg + re * rs" using True re s(2) g(2) by simp
      moreover have "(1 - re) * rg + re * rs \<le> (1 - re) * 1 + re * 1"
        using True re s(3) g(3) by (intro add_mono mult_left_mono) simp_all
      ultimately have "0 \<le> rg + (rs - rg) * re \<and> rg + (rs - rg) * re \<le> 1"
        unfolding eq by simp
      then show ?thesis
        using True Fin s(1) g(1) by (simp add: gain_update_def fsub_def)
    next
      case False
      have "0 \<le> rg * re" using re g(2) by simp
      then show ?thesis
        using False Fin g(1) by (simp add: gain_update_def std_min_def)
    qed
  next
    case PInf
    then show ?thesis
      using g by (cases "rg = 0") (simp_all add: gain_update_def std_min_def inf_of_sign_def)
  next
    case NInf
    then show ?thesis using assms(1) by simp
  next
    case NaN
    then show ?thesis using g(1) by (simp add: gain_update_def std_min_def)
  qed
qed

subsection \<open>The curve gives no negative output\<close>

lemma fadd_NaN_right [simp]: "fadd a NaN = NaN"
  by (cases a) simp_all

lemma fmul_NaN_right [simp]: "fmul a NaN = NaN"
  by (cases a) simp_all

lemma fdiv_NaN_right [simp]: "fdiv a NaN = NaN"
  by (cases a) simp_all

lemma pos_fin_cases:
  assumes "pos_fin k"
  obtains rk where "k = Fin rk" "0 < rk"
  using assms by (cases k) auto

lemma kneeCurve_nonneg:
  assumes "nonneg_or_nan (m_linearThreshold st)" "pos_fin k" "pos_or_nan x"
  shows "nonneg_or_nan (kneeCurve st x k)"
proof -
  obtain rk where k: "k = Fin rk" "0 < rk" using assms(2) by (rule pos_fin_cases)
  show ?thesis
  proof (cases "m_linearThreshold st")
    case (Fin l)
    then have l: "0 \<le> l" using assms(1) by simp
    show ?thesis
    proof (cases x)
      case (Fin rx)
      have "0 \<le> l + (1 - exp (- (rk * (rx - l)))) / rk" if "\<not> rx < l"
      proof -
        have "0 \<le> rk * (rx - l)" using that k(2) by simp
        then have "exp (- (rk * (rx - l))) \<le> 1" by simp
        then have "0 \<le> (1 - exp (- (rk * (rx - l)))) / rk" using k(2) by simp
        then show ?thesis using l by simp
      qed
      then show ?thesis
        using Fin \<open>m_linearThreshold st = Fin l\<close> k assms(3)
        by (auto simp: kneeCurve_def fsub_def)
    next
      case PInf
      have "0 \<le> l + 1 / rk" using l k(2) by simp
      then show ?thesis
        using PInf \<open>m_linearThreshold st = Fin l\<close> k
        by (simp add: kneeCurve_def fsub_def inf_of_sign_def)
    next
      case NInf
      then show ?thesis using assms(3) by simp
    next
      case NaN
      then show ?thesis
        using \<open>m_linearThreshold st = Fin l\<close> by (simp add: kneeCurve_def fsub_def)
    qed
  next
    case PInf
    then show ?thesis
      using assms(3) k by (cases x) (simp_all add: kneeCurve_def fsub_def)
  next
    case NInf
    then show ?thesis using assms(1) by simp
  next
    case NaN
    then show ?thesis
      using k by (cases x) (simp_all add: kneeCurve_def fsub_def)
  qed
qed

lemma saturate_nonneg:
  assumes "\<not> flt_lt (Fin 0) (m_kneeThreshold st)
           \<or> (nonneg_or_nan (m_linearThreshold st) \<and> pos_fin k)"
    and "pos_or_nan x"
  shows "nonneg_or_nan (saturate st x k)"
proof (cases "flt_lt x (m_kneeThreshold st)")
  case True
  have "flt_lt (Fin 0) (m_kneeThreshold st)"
    using True assms(2) by (cases x; cases "m_kneeThreshold st") auto
  then have "nonneg_or_nan (m_linearThreshold st) \<and> pos_fin k" using assms(1) by blast
  then show ?thesis
    using True kneeCurve_nonneg[OF _ _ assms(2)] by (simp add: saturate_def)
next
  case False
  then show ?thesis
    by (simp add: saturate_def Let_def decibelsToLinear_nonneg)
qed

lemma fabs_src_nonneg: "nonneg_or_nan (fabs_src v)"
  by (cases v) (auto simp: fabs_src_def flt_gt_def)

lemma fdiv_nonneg:
  assumes "nonneg_or_nan s" "pos_or_nan a"
  shows "nonneg_or_nan (fdiv s a)"
  using assms by (cases s; cases a) auto

lemma detector_attenuation_nonneg:
  assumes "\<not> flt_lt (Fin 0) (m_kneeThreshold st)
           \<or> (nonneg_or_nan (m_linearThreshold st) \<and> pos_fin k)"
  shows "nonneg_or_nan (detector_attenuation st k cin)"
proof (cases "flt_le (fabs_src cin) (Fin 0.0001)")
  case True
  then show ?thesis by (simp add: detector_attenuation_def Let_def)
next
  case False
  have "pos_or_nan (fabs_src cin)"
    using False fabs_src_nonneg[of cin] by (cases "fabs_src cin") auto
  from fdiv_nonneg[OF saturate_nonneg[OF assms this] this] show ?thesis
    using False by (simp add: detector_attenuation_def Let_def)
qed

subsection \<open>The envelope rate\<close>

lemma scaledDesiredGain_in01:
  assumes "in01 d"
  shows "in01 (fdiv (asinf d) piOverTwoFloat)"
proof -
  obtain rd where d: "d = Fin rd" "0 \<le> rd" "rd \<le> 1" using assms by (rule in01_cases)
  have "arcsin 0 \<le> arcsin rd" using d by (intro arcsin_le_arcsin) simp_all
  then have lo: "0 \<le> arcsin rd" by simp
  have hi: "arcsin rd \<le> pi / 2" using d by (intro arcsin_ubound) simp_all
  have "0 \<le> arcsin rd / (pi / 2)" using lo by simp
  moreover have "arcsin rd / (pi / 2) \<le> 1" using hi by simp
  ultimately show ?thesis using d by (simp add: piOverTwoFloat_def)
qed

lemma attack_envelopeRate_nonneg:
  assumes "nonneg_or_nan (blk_attackFrames c)"
  shows "nonneg_or_nan (attack_envelopeRate c m)"
proof -
  have eff: "(\<exists>t\<ge>1/2. std_max (Fin 0.5) m = Fin t) \<or> std_max (Fin 0.5) m = PInf"
  proof (cases "flt_lt (Fin 0.5) m")
    case True
    then show ?thesis by (cases m) (auto simp: std_max_def)
  next
    case False
    then have "std_max (Fin 0.5) m = Fin (1 / 2)" by (simp add: std_max_def)
    moreover have "(1::real) / 2 \<le> 1 / 2" by simp
    ultimately show ?thesis by blast
  qed
  have "\<exists>b. fdiv (Fin 0.25) (std_max (Fin 0.5) m) = Fin b \<and> 0 \<le> b \<and> b \<le> 1 / 2"
    using eff
  proof
    assume "\<exists>t\<ge>1/2. std_max (Fin 0.5) m = Fin t"
    then obtain t where t: "std_max (Fin 0.5) m = Fin t" "1 / 2 \<le> t" by blast
    have "(1 / 4) / t \<le> 1 / 2" using t(2) by (simp add: field_simps)
    then show ?thesis using t by simp
  next
    assume "std_max (Fin 0.5) m = PInf"
    then show ?thesis by simp
  qed
  then obtain b where b: "fdiv (Fin 0.25) (std_max (Fin 0.5) m) = Fin b" "0 \<le> b" "b \<le> 1 / 2"
    by blast
  have y: "nonneg_or_nan (fdiv (Fin 1) (blk_attackFrames c))"
    using assms by (cases "blk_attackFrames c") (auto simp: inf_of_sign_def)
  have "\<exists>t. (powf (Fin b) (fdiv (Fin 1) (blk_attackFrames c)) = Fin t \<and> 0 \<le> t \<and> t \<le> 1)
             \<or> powf (Fin b) (fdiv (Fin 1) (blk_attackFrames c)) = NaN"
  proof (cases "fdiv (Fin 1) (blk_attackFrames c)")
    case (Fin yy)
    then have yy: "0 \<le> yy" using y by simp
    have "b powr yy \<le> 1" using b yy by (intro powr_le1) simp_all
    then show ?thesis using Fin b yy by auto
  next
    case PInf
    then show ?thesis using b by auto
  next
    case NInf
    then show ?thesis using y by simp
  next
    case NaN
    then show ?thesis using b by auto
  qed
  then show ?thesis
    unfolding attack_envelopeRate_def Let_def b(1) by (auto simp: fsub_def)
qed

lemma release_envelopeRate_nonneg: "nonneg_or_nan (release_envelopeRate c x)"
  unfolding release_envelopeRate_def Let_def by (rule decibelsToLinear_nonneg)

lemma envelope_decision_ok:
  assumes "envelope_decision c st = (st1, s, e)"
    and "in01 (m_detectorAverage st)" "nonneg_or_nan (blk_attackFrames c)"
  shows "m_detectorAverage st1 = m_detectorAverage st \<and> in01 s \<and> nonneg_or_nan e"
proof -
  have f: "fix_gremlins (Fin 1) (m_detectorAverage st) = m_detectorAverage st"
    using assms(2) by (simp add: fix_gremlins_id in01_finite)
  have s: "in01 (fdiv (asinf (m_detectorAverage st)) piOverTwoFloat)"
    using assms(2) by (rule scaledDesiredGain_in01)
  show ?thesis
    using assms(1) s unfolding envelope_decision_def Let_def
    by (auto simp: f release_envelopeRate_nonneg
        attack_envelopeRate_nonneg[OF assms(3)] split: if_splits)
qed

lemma envelope_decision_fields:
  assumes "envelope_decision c st = (st1, s, e)"
  shows "m_compressorGain st1 = m_compressorGain st"
    and "m_detectorAverage st1 = fix_gremlins (Fin 1) (m_detectorAverage st)"
    and "s = fdiv (asinf (m_detectorAverage st1)) piOverTwoFloat"
    and "same_config st st1"
proof -
  obtain b where b: "fst (envelope_decision c st)
     = st\<lparr>m_detectorAverage := fix_gremlins (Fin 1) (m_detectorAverage st),
          m_maxAttackCompressionDiffDb := b\<rparr>"
    using envelope_decision_state by blast
  then have st1: "st1 = st\<lparr>m_detectorAverage := fix_gremlins (Fin 1) (m_detectorAverage st),
          m_maxAttackCompressionDiffDb := b\<rparr>"
    using assms by simp
  show "m_compressorGain st1 = m_compressorGain st"
    and "m_detectorAverage st1 = fix_gremlins (Fin 1) (m_detectorAverage st)"
    by (simp_all add: st1)
  show "same_config st st1" using envelope_decision_same_config[of st c] assms by simp
  show "s = fdiv (asinf (m_detectorAverage st1)) piOverTwoFloat"
    using assms unfolding envelope_decision_def Let_def
    by (auto simp: st1 split: if_splits)
qed

subsection \<open>The envelope of a block\<close>

lemma attackFrames_of_nonneg: "nonneg_or_nan (attackFrames_of a (of_size_t sr))"
proof -
  have "(\<exists>t\<ge>0. std_max (Fin 0.001) a = Fin t) \<or> std_max (Fin 0.001) a = PInf"
  proof (cases "flt_lt (Fin 0.001) a")
    case True
    then show ?thesis by (cases a) (auto simp: std_max_def)
  next
    case False
    then have "std_max (Fin 0.001) a = Fin 0.001" by (simp add: std_max_def)
    moreover have "(0::real) \<le> 0.001" by simp
    ultimately show ?thesis by blast
  qed
  then show ?thesis
    by (auto simp: attackFrames_of_def Let_def of_size_t_def inf_of_sign_def)
qed

lemma curve_inv_block_setup:
  assumes "curve_inv st"
  shows "curve_inv (snd (block_setup p buffer st))"
proof (cases "curve_parameters_changed (paramThreshold p) (paramKnee p) (paramRatio p) st")
  case True
  obtain c where "kAtSlope (st\<lparr>m_dbThreshold := paramThreshold p,
                   m_linearThreshold := decibelsToLinear (paramThreshold p),
                   m_dbKnee := paramKnee p, m_ratio := paramRatio p,
                   m_slope := fdiv (Fin 1) (paramRatio p)\<rparr>) (fdiv (Fin 1) (paramRatio p)) = Fin c"
    "1 / 10 \<le> c"
    using kAtSlope_in_range by blast
  then show ?thesis
    using True
    by (simp add: block_setup_state updateStaticCurveParameters_state curve_inv_def
        recomputed_curve_def Let_def decibelsToLinear_nonneg)
next
  case False
  then show ?thesis
    using assms by (simp add: block_setup_state updateStaticCurveParameters_state)
qed

lemma block_ok_block_setup:
  assumes "curve_inv st"
  shows "block_ok (fst (block_setup p buffer st)) (snd (block_setup p buffer st))"
proof -
  have a: "nonneg_or_nan (blk_attackFrames (fst (block_setup p buffer st)))"
    by (simp add: block_setup_attackFrames attackFrames_of_nonneg)
  have s: "blk_satReleaseFrames (fst (block_setup p buffer st))
             = Fin (0.0025 * real (sampleRate st))"
    by (simp add: block_setup_locals of_size_t_def)
  show ?thesis
    using curve_inv_block_setup[OF assms, of p buffer] a
    by (simp add: block_ok_def s block_setup_locals(2) curve_inv_def)
qed

lemma block_ok_same_config: "same_config st st' \<Longrightarrow> block_ok c st \<Longrightarrow> block_ok c st'"
  by (simp add: block_ok_def same_config_def)

lemma setPreDelayTime_fields:
  assumes "setPreDelayTime t st = Some st2"
  shows "m_detectorAverage st2 = m_detectorAverage st"
    and "m_compressorGain st2 = m_compressorGain st"
    and "m_kneeThreshold st2 = m_kneeThreshold st"
    and "m_linearThreshold st2 = m_linearThreshold st"
    and "m_K st2 = m_K st"
proof -
  obtain n where n: "to_unsigned (fmul t (of_size_t (sampleRate st))) = Some n"
    using assms unfolding setPreDelayTime_def by (auto split: option.splits)
  show "m_detectorAverage st2 = m_detectorAverage st"
    and "m_compressorGain st2 = m_compressorGain st"
    and "m_kneeThreshold st2 = m_kneeThreshold st"
    and "m_linearThreshold st2 = m_linearThreshold st"
    and "m_K st2 = m_K st"
    using assms unfolding setPreDelayTime_Some[OF n] by (auto split: if_splits)
qed

lemma sample_step_env:
  assumes "sample_step c st s e ls = Some ls'"
    and "block_ok c st" "nonneg_or_nan e" "in01 s"
    and "in01 (detectorAverage ls) \<and> in01 (compressorGain ls)"
  shows "in01 (detectorAverage ls') \<and> in01 (compressorGain ls')"
proof -
  from sample_step_Some[OF assms(1)] obtain cin where
    d: "detectorAverage ls'
         = detector_update (blk_satReleaseFrames c)
             (detector_attenuation st (blk_k c) cin) (detectorAverage ls)"
    and g: "compressorGain ls' = gain_update e s (compressorGain ls)"
    by blast
  obtain f where f: "blk_satReleaseFrames c = Fin f" "0 \<le> f"
    using assms(2) by (cases "blk_satReleaseFrames c") (auto simp: block_ok_def)
  have a: "nonneg_or_nan (detector_attenuation st (blk_k c) cin)"
    using assms(2) by (intro detector_attenuation_nonneg) (simp add: block_ok_def)
  show ?thesis
    unfolding d g f(1)
    using detector_update_in01[OF a _ f(2)] gain_update_in01[OF assms(3,4)] assms(5)
    by simp
qed

lemma division_env:
  assumes "division c st buf frame = Some (st', buf', frame', tr)"
    and "block_ok c st" "in01 (m_detectorAverage st)" "in01 (m_compressorGain st)"
  shows "in01 (m_detectorAverage st') \<and> in01 (m_compressorGain st')
         \<and> (\<forall>ob \<in> set tr. in01 (obsDetectorAverage ob) \<and> in01 (obsCompressorGain ob))"
proof -
  from division_Some[OF assms(1)] obtain st1 s e ls where
    ed: "envelope_decision c st = (st1, s, e)"
    and sl: "sample_loop nDivisionFrames c st1 s e (division_locals st1 buf frame) = Some (ls, tr)"
    and st': "st' = st1\<lparr>m_preDelayReadIndex := preDelayReadIndex ls,
                  m_preDelayWriteIndex := preDelayWriteIndex ls,
                  m_detectorAverage := detectorAverage ls,
                  m_compressorGain := compressorGain ls,
                  m_meteringGain := meteringGain ls,
                  mPreDelayBuffer := delayLine ls\<rparr>"
    and b': "buf' = samples ls" and f': "frame' = frameIndex ls"
    by blast
  have af: "nonneg_or_nan (blk_attackFrames c)" using assms(2) by (simp add: block_ok_def)
  from envelope_decision_ok[OF ed assms(3) af]
  have d1: "m_detectorAverage st1 = m_detectorAverage st" and s: "in01 s"
    and e: "nonneg_or_nan e" by auto
  note fl = envelope_decision_fields[OF ed]
  have ok1: "block_ok c st1" using block_ok_same_config[OF fl(4) assms(2)] .
  let ?P = "\<lambda>l. in01 (detectorAverage l) \<and> in01 (compressorGain l)"
  have p0: "?P (division_locals st1 buf frame)"
    using assms(3,4) d1 fl(1) by (simp add: division_locals_def)
  have "?P ls \<and> (\<forall>ob \<in> set tr. \<exists>l. ?P l \<and> ob = observe l)"
    by (rule sample_loop_invariant[where P = ?P, OF sl p0])
       (rule sample_step_env[OF _ ok1 e s])
  then show ?thesis by (auto simp: st' observe_def)
qed

lemma process_env:
  assumes "process p buffer st = Some (st', buffer', tr)" "env_inv st"
  shows "env_inv st'
         \<and> (\<forall>ob \<in> set tr. in01 (obsDetectorAverage ob) \<and> in01 (obsCompressorGain ob))"
proof -
  let ?c = "fst (block_setup p buffer st)" and ?st1 = "snd (block_setup p buffer st)"
  from process_Some[OF assms(1)] obtain st2 buf3 frame3 where
    s2: "setPreDelayTime (Fin 0.006) ?st1 = Some st2"
    and ds: "divisions ((bufNumFrames buffer mod 2 ^ 32) div nDivisionFrames)
         ?c st2 (bufChannels buffer) 0 = Some (st', buf3, frame3, tr)"
    and b3: "buffer' = buffer\<lparr>bufChannels := buf3\<rparr>"
    by blast
  have ci: "curve_inv st" and d0: "in01 (m_detectorAverage st)"
    and g0: "in01 (m_compressorGain st)"
    using assms(2) by (simp_all add: env_inv_def)
  note sf = setPreDelayTime_fields[OF s2]
  have ok2: "block_ok ?c st2"
    using block_ok_block_setup[OF ci, of p buffer] by (simp add: block_ok_def sf)
  have c2: "curve_inv st2"
    using curve_inv_block_setup[OF ci, of p buffer] by (simp add: curve_inv_def sf)
  let ?Q = "\<lambda>s (b::flt list list) (f::nat).
              in01 (m_detectorAverage s) \<and> in01 (m_compressorGain s) \<and> same_config st2 s"
  let ?R = "\<lambda>ob. in01 (obsDetectorAverage ob) \<and> in01 (obsCompressorGain ob)"
  have "?Q st' buf3 frame3 \<and> (\<forall>ob \<in> set tr. ?R ob)"
  proof (rule divisions_invariant[OF ds, where Q = ?Q and R = ?R])
    show "?Q st2 (bufChannels buffer) 0"
      using d0 g0 by (simp add: sf block_setup_frame same_config_refl)
  next
    fix s b f s1 b1 f1 tr1
    assume q: "?Q s b f" and d: "division ?c s b f = Some (s1, b1, f1, tr1)"
    have ok: "block_ok ?c s" using q ok2 block_ok_same_config by blast
    from division_env[OF d ok] q division_same_config[OF d]
    show "?Q s1 b1 f1 \<and> (\<forall>ob \<in> set tr1. ?R ob)"
      by (auto intro: same_config_trans)
  qed
  then show ?thesis
    using c2 by (auto simp: env_inv_def curve_inv_def same_config_def)
qed

lemma env_inv_initialize: "env_inv (initialize sr nch)"
  by (simp add: env_inv_def curve_inv_def initialize_def reset_def)

lemma env_inv_reset: "env_inv st \<Longrightarrow> env_inv (reset st)"
  by (simp add: env_inv_def curve_inv_def reset_def)

lemma reachable_env_inv: "reachable st \<Longrightarrow> env_inv st"
proof (induction rule: reachable.induct)
  case (reachable_initialize sr nch)
  show ?case by (rule env_inv_initialize)
next
  case (reachable_reset st)
  then show ?case by (simp add: env_inv_reset)
next
  case (reachable_process st p buffer st' buffer' tr)
  then show ?case using process_env by blast
qed

subsection \<open>The envelope of every reachable state\<close>

lemma process_trace_length:
  assumes "process p buffer st = Some (st', buffer', tr)"
  shows "length tr = processed_frames buffer"
proof -
  from process_Some[OF assms] obtain st2 buf3 frame3 where
    s2: "setPreDelayTime (Fin 0.006) (snd (block_setup p buffer st)) = Some st2"
    and ds: "divisions ((bufNumFrames buffer mod 2 ^ 32) div nDivisionFrames)
         (fst (block_setup p buffer st)) st2 (bufChannels buffer) 0
         = Some (st', buf3, frame3, tr)"
    and b3: "buffer' = buffer\<lparr>bufChannels := buf3\<rparr>"
    by blast
  from divisions_frame[OF ds] show ?thesis by (simp add: processed_frames_def)
qed

text \<open>
  C1. In every state reached from \<^verbatim>\<open>initialize\<close> by calls of \<^verbatim>\<open>reset\<close> and \<^verbatim>\<open>process\<close>, the
  detector average and the compressor gain lie between 0 and 1; \<^verbatim>\<open>reset\<close> sets them to 0
  and 1; and in a call of \<^verbatim>\<open>process\<close> from such a state, whatever the parameters and the
  samples, both values lie between 0 and 1 after the update of every frame and in the
  state returned.
\<close>

theorem envelope_state_stays_in_unit_interval:
  assumes "reachable st"
  shows "in01 (m_detectorAverage st) \<and> in01 (m_compressorGain st)
     \<and> m_detectorAverage (reset st) = Fin 0 \<and> m_compressorGain (reset st) = Fin 1
     \<and> (\<forall>p buffer st' buffer' tr. process p buffer st = Some (st', buffer', tr) \<longrightarrow>
          (\<forall>ob \<in> set tr. in01 (obsDetectorAverage ob) \<and> in01 (obsCompressorGain ob))
          \<and> in01 (m_detectorAverage st') \<and> in01 (m_compressorGain st'))"
proof -
  have e: "env_inv st" using assms by (rule reachable_env_inv)
  have "(\<forall>ob \<in> set tr. in01 (obsDetectorAverage ob) \<and> in01 (obsCompressorGain ob))
          \<and> in01 (m_detectorAverage st') \<and> in01 (m_compressorGain st')"
    if "process p buffer st = Some (st', buffer', tr)" for p buffer st' buffer' tr
    using process_env[OF that e] by (simp add: env_inv_def)
  then show ?thesis using e by (simp add: env_inv_def reset_def)
qed

theorem envelope_state_stays_in_unit_interval_witness:
  "in01 (m_detectorAverage (initialize 44100 1))
   \<and> in01 (m_compressorGain (initialize 44100 1))
   \<and> (case process \<lparr>paramThreshold = Fin (- 24), paramRatio = Fin 12, paramKnee = Fin 30,
                      paramAttackTime = Fin 0.003, paramReleaseTime = Fin 0.25\<rparr>
            \<lparr>bufNumFrames = 32, bufChannels = [replicate 32 (Fin 1)]\<rparr> (initialize 44100 1) of
        None \<Rightarrow> False
      | Some (st', b', tr) \<Rightarrow>
          length tr = 32
          \<and> in01 (obsDetectorAverage (hd tr)) \<and> in01 (obsCompressorGain (hd tr))
          \<and> in01 (obsDetectorAverage (last tr)) \<and> in01 (obsCompressorGain (last tr))
          \<and> in01 (m_detectorAverage st') \<and> in01 (m_compressorGain st'))"
proof -
  let ?p = "\<lparr>paramThreshold = Fin (- 24), paramRatio = Fin 12, paramKnee = Fin 30,
             paramAttackTime = Fin 0.003, paramReleaseTime = Fin 0.25\<rparr>"
  let ?b = "\<lparr>bufNumFrames = 32, bufChannels = [replicate 32 (Fin 1)]\<rparr>"
  note t = envelope_state_stays_in_unit_interval[OF reachable_initialize, of 44100 1]
  have n: "to_unsigned (fmul (Fin 0.006) (of_size_t (sampleRate (initialize 44100 1)))) = Some 264"
    by (simp add: initialize_frame of_size_t_def)
  have wb: "wf_buffer ?b" by (simp add: wf_buffer_def)
  have len: "length (bufChannels ?b) \<le> length (mPreDelayBuffer (initialize 44100 1))"
    by (simp add: initialize_frame)
  from process_succeeds[OF wf_state_initialize wb len n, of ?p]
  obtain st' b' tr where pr: "process ?p ?b (initialize 44100 1) = Some (st', b', tr)" by blast
  have l: "length tr = 32"
    using process_trace_length[OF pr] by (simp add: processed_frames_def nDivisionFrames_def)
  then have ne: "tr \<noteq> []" by auto
  have all: "(\<forall>ob \<in> set tr. in01 (obsDetectorAverage ob) \<and> in01 (obsCompressorGain ob))
          \<and> in01 (m_detectorAverage st') \<and> in01 (m_compressorGain st')"
    using t pr by blast
  have F: "length tr = 32
          \<and> in01 (obsDetectorAverage (hd tr)) \<and> in01 (obsCompressorGain (hd tr))
          \<and> in01 (obsDetectorAverage (last tr)) \<and> in01 (obsCompressorGain (last tr))
          \<and> in01 (m_detectorAverage st') \<and> in01 (m_compressorGain st')"
    using all l ne by simp
  have G: "in01 (m_detectorAverage (initialize 44100 1))
           \<and> in01 (m_compressorGain (initialize 44100 1))"
    using t by blast
  show ?thesis unfolding pr option.case prod.case using F G by blast
qed

subsection \<open>The repair of the detector average\<close>

lemma division_detector_finite:
  assumes "division c st buf frame = Some (st', buf', frame', tr)"
  shows "\<forall>ob \<in> set tr. is_finite (obsDetectorAverage ob)"
proof -
  from division_Some[OF assms(1)] obtain st1 s e ls where
    ed: "envelope_decision c st = (st1, s, e)"
    and sl: "sample_loop nDivisionFrames c st1 s e (division_locals st1 buf frame) = Some (ls, tr)"
    and st': "st' = st1\<lparr>m_preDelayReadIndex := preDelayReadIndex ls,
                  m_preDelayWriteIndex := preDelayWriteIndex ls,
                  m_detectorAverage := detectorAverage ls,
                  m_compressorGain := compressorGain ls,
                  m_meteringGain := meteringGain ls,
                  mPreDelayBuffer := delayLine ls\<rparr>"
    and b': "buf' = samples ls" and f': "frame' = frameIndex ls"
    by blast
  let ?P = "\<lambda>l. is_finite (detectorAverage l)"
  have "is_finite (Fin 1)" by (simp add: is_finite_def)
  then have p0: "?P (division_locals st1 buf frame)"
    by (simp add: division_locals_def envelope_decision_fields(2)[OF ed] fix_gremlins_finite)
  have step: "?P l'" if "?P l" "sample_step c st1 s e l = Some l'" for l l'
    using sample_step_Some[OF that(2)] detector_update_finite by auto
  have "?P ls \<and> (\<forall>ob \<in> set tr. \<exists>l. ?P l \<and> ob = observe l)"
    by (rule sample_loop_invariant[where P = ?P, OF sl p0]) (rule step)
  then show ?thesis by (auto simp: observe_def)
qed

lemma process_detector_finite:
  assumes "process p buffer st = Some (st', buffer', tr)"
  shows "\<forall>ob \<in> set tr. is_finite (obsDetectorAverage ob)"
proof -
  from process_Some[OF assms] obtain st2 buf3 frame3 where
    s2: "setPreDelayTime (Fin 0.006) (snd (block_setup p buffer st)) = Some st2"
    and ds: "divisions ((bufNumFrames buffer mod 2 ^ 32) div nDivisionFrames)
         (fst (block_setup p buffer st)) st2 (bufChannels buffer) 0
         = Some (st', buf3, frame3, tr)"
    and b3: "buffer' = buffer\<lparr>bufChannels := buf3\<rparr>"
    by blast
  have "True \<and> (\<forall>ob \<in> set tr. is_finite (obsDetectorAverage ob))"
    by (rule divisions_invariant[OF ds, where Q = "\<lambda>s b f. True"
          and R = "\<lambda>ob. is_finite (obsDetectorAverage ob)"])
       (auto dest: division_detector_finite)
  then show ?thesis by simp
qed

text \<open>
  C5. The update of the detector average in the inner loop never leaves a NaN or an
  infinity: whenever the value computed before the clamp is NaN or infinite the updated
  average is 1. At the head of every division a NaN or infinite \<^verbatim>\<open>m_detectorAverage\<close> is
  replaced by 1 before the desired gain is computed from it. So the detector average
  recorded after every frame of \<^verbatim>\<open>process\<close> is finite.
\<close>

theorem non_finite_detector_average_repaired:
  "is_finite (detector_update f a d)
   \<and> (isnan (detector_unclamped f a d) \<or> isinf (detector_unclamped f a d)
        \<longrightarrow> detector_update f a d = Fin 1)
   \<and> is_finite (m_detectorAverage (fst (envelope_decision c st)))
   \<and> (isnan (m_detectorAverage st) \<or> isinf (m_detectorAverage st)
        \<longrightarrow> m_detectorAverage (fst (envelope_decision c st)) = Fin 1)
   \<and> fst (snd (envelope_decision c st))
       = fdiv (asinf (m_detectorAverage (fst (envelope_decision c st)))) piOverTwoFloat
   \<and> (process p buffer st = Some (st', buffer', tr)
        \<longrightarrow> (\<forall>ob \<in> set tr. is_finite (obsDetectorAverage ob)))"
proof -
  obtain st1 s e where ed: "envelope_decision c st = (st1, s, e)"
    by (cases "envelope_decision c st") auto
  note fl = envelope_decision_fields[OF ed]
  have "is_finite (Fin 1)" by (simp add: is_finite_def)
  then have a: "is_finite (m_detectorAverage st1)"
    by (simp add: fl(2) fix_gremlins_finite)
  have b: "m_detectorAverage st1 = Fin 1"
    if "isnan (m_detectorAverage st) \<or> isinf (m_detectorAverage st)"
    using that by (simp add: fl(2) fix_gremlins_special)
  show ?thesis
    using a b fl(3) detector_update_finite detector_update_repairs process_detector_finite
    unfolding ed by auto
qed

theorem non_finite_detector_average_repaired_witness:
  "isnan (detector_unclamped (Fin 110) NaN (Fin (1 / 2)))
   \<and> detector_update (Fin 110) NaN (Fin (1 / 2)) = Fin 1
   \<and> isinf (m_detectorAverage ((initialize 44100 1)\<lparr>m_detectorAverage := PInf\<rparr>))
   \<and> m_detectorAverage (fst (envelope_decision
         (fst (block_setup \<lparr>paramThreshold = Fin (- 24), paramRatio = Fin 12,
                            paramKnee = Fin 30, paramAttackTime = Fin 0.003,
                            paramReleaseTime = Fin 0.25\<rparr>
                 \<lparr>bufNumFrames = 32, bufChannels = [replicate 32 PInf]\<rparr>
                 (initialize 44100 1)))
         ((initialize 44100 1)\<lparr>m_detectorAverage := PInf\<rparr>))) = Fin 1
   \<and> (case process \<lparr>paramThreshold = Fin (- 24), paramRatio = Fin 12, paramKnee = Fin 30,
                      paramAttackTime = Fin 0.003, paramReleaseTime = Fin 0.25\<rparr>
            \<lparr>bufNumFrames = 32, bufChannels = [replicate 32 PInf]\<rparr> (initialize 44100 1) of
        None \<Rightarrow> False
      | Some (st', b', tr) \<Rightarrow>
          length tr = 32 \<and> is_finite (obsDetectorAverage (hd tr))
          \<and> is_finite (obsDetectorAverage (last tr)))"
proof -
  let ?p = "\<lparr>paramThreshold = Fin (- 24), paramRatio = Fin 12, paramKnee = Fin 30,
             paramAttackTime = Fin 0.003, paramReleaseTime = Fin 0.25\<rparr>"
  let ?b = "\<lparr>bufNumFrames = 32, bufChannels = [replicate 32 PInf]\<rparr>"
  have n: "to_unsigned (fmul (Fin 0.006) (of_size_t (sampleRate (initialize 44100 1)))) = Some 264"
    by (simp add: initialize_frame of_size_t_def)
  have wb: "wf_buffer ?b" by (simp add: wf_buffer_def)
  have len: "length (bufChannels ?b) \<le> length (mPreDelayBuffer (initialize 44100 1))"
    by (simp add: initialize_frame)
  from process_succeeds[OF wf_state_initialize wb len n, of ?p]
  obtain st' b' tr where pr: "process ?p ?b (initialize 44100 1) = Some (st', b', tr)" by blast
  have l: "length tr = 32"
    using process_trace_length[OF pr] by (simp add: processed_frames_def nDivisionFrames_def)
  then have ne: "tr \<noteq> []" by auto
  note t1 = non_finite_detector_average_repaired
      [of "Fin 110" NaN "Fin (1 / 2)" "fst (block_setup ?p ?b (initialize 44100 1))"
          "(initialize 44100 1)\<lparr>m_detectorAverage := PInf\<rparr>" ?p ?b st' b' tr]
  note t2 = non_finite_detector_average_repaired
      [of "Fin 110" NaN "Fin (1 / 2)" "fst (block_setup ?p ?b (initialize 44100 1))"
          "initialize 44100 1" ?p ?b st' b' tr]
  have u: "isnan (detector_unclamped (Fin 110) NaN (Fin (1 / 2)))"
    by (simp add: detector_unclamped_def Let_def flt_gt_def fsub_def)
  have A: "isnan (detector_unclamped (Fin 110) NaN (Fin (1 / 2)))
     \<and> detector_update (Fin 110) NaN (Fin (1 / 2)) = Fin 1
     \<and> isinf (m_detectorAverage ((initialize 44100 1)\<lparr>m_detectorAverage := PInf\<rparr>))
     \<and> m_detectorAverage (fst (envelope_decision
           (fst (block_setup ?p ?b (initialize 44100 1)))
           ((initialize 44100 1)\<lparr>m_detectorAverage := PInf\<rparr>))) = Fin 1"
    using t1 u by simp
  have F: "length tr = 32 \<and> is_finite (obsDetectorAverage (hd tr))
          \<and> is_finite (obsDetectorAverage (last tr))"
    using t2 pr l ne by simp
  show ?thesis unfolding pr option.case prod.case using A F by blast
qed

section \<open>Further properties of reachable states\<close>

subsection \<open>Reachable states are well formed and \<^verbatim>\<open>process\<close> returns\<close>

lemma sample_step_shape:
  assumes "sample_step c st s e ls = Some ls'"
  shows "map length (delayLine ls') = map length (delayLine ls)
         \<and> preDelayReadIndex ls' < MaxPreDelayFrames
         \<and> preDelayWriteIndex ls' < MaxPreDelayFrames"
proof -
  from sample_step_Some[OF assms] obtain delay' cin where
    pw: "predelay_write (blk_numberOfChannels c) (frameIndex ls) (preDelayWriteIndex ls)
       (samples ls) (delayLine ls) = Some (delay', cin)"
    and r: "preDelayReadIndex ls' = (preDelayReadIndex ls + 1) mod MaxPreDelayFrames"
    and w: "preDelayWriteIndex ls' = (preDelayWriteIndex ls + 1) mod MaxPreDelayFrames"
    and d: "delayLine ls' = delay'"
    by blast
  have "0 < MaxPreDelayFrames" by (simp add: MaxPreDelayFrames_def)
  then show ?thesis using predelay_write_shape[OF pw] r w d by simp
qed

lemma wf_state_shape:
  "wf_state st \<longleftrightarrow>
     (list_all (\<lambda>n. n = MaxPreDelayFrames) (map length (mPreDelayBuffer st))
      \<and> m_preDelayReadIndex st < MaxPreDelayFrames
      \<and> m_preDelayWriteIndex st < MaxPreDelayFrames)"
  by (simp add: wf_state_def list_all_iff)

lemma division_wf_state:
  assumes "division c st buf frame = Some (st', buf', frame', tr)" "wf_state st"
  shows "wf_state st' \<and> length (mPreDelayBuffer st') = length (mPreDelayBuffer st)"
proof -
  from division_Some[OF assms(1)] obtain st1 s e ls where
    ed: "envelope_decision c st = (st1, s, e)"
    and sl: "sample_loop nDivisionFrames c st1 s e (division_locals st1 buf frame) = Some (ls, tr)"
    and st': "st' = st1\<lparr>m_preDelayReadIndex := preDelayReadIndex ls,
                  m_preDelayWriteIndex := preDelayWriteIndex ls,
                  m_detectorAverage := detectorAverage ls,
                  m_compressorGain := compressorGain ls,
                  m_meteringGain := meteringGain ls,
                  mPreDelayBuffer := delayLine ls\<rparr>"
    and b': "buf' = samples ls" and f': "frame' = frameIndex ls"
    by blast
  obtain b where st1: "st1 = st\<lparr>m_detectorAverage := fix_gremlins (Fin 1) (m_detectorAverage st),
          m_maxAttackCompressionDiffDb := b\<rparr>"
    using envelope_decision_state[of c st] ed by auto
  let ?P = "\<lambda>l. map length (delayLine l) = map length (mPreDelayBuffer st)
              \<and> preDelayReadIndex l < MaxPreDelayFrames
              \<and> preDelayWriteIndex l < MaxPreDelayFrames"
  have p0: "?P (division_locals st1 buf frame)"
    using assms(2) by (simp add: division_locals_def st1 wf_state_def)
  have step: "?P l'" if "?P l" "sample_step c st1 s e l = Some l'" for l l'
    using sample_step_shape[OF that(2)] that(1) by simp
  have "?P ls \<and> (\<forall>ob \<in> set tr. \<exists>l. ?P l \<and> ob = observe l)"
    by (rule sample_loop_invariant[where P = ?P, OF sl p0]) (rule step)
  then have p: "?P ls" by blast
  then have "length (delayLine ls) = length (mPreDelayBuffer st)"
    using nth_length_of_shape by blast
  then show ?thesis
    using p assms(2) by (simp add: wf_state_shape st')
qed

lemma process_wf_state:
  assumes "process p buffer st = Some (st', buffer', tr)" "wf_state st"
  shows "wf_state st' \<and> length (mPreDelayBuffer st') = length (mPreDelayBuffer st)"
proof -
  let ?c = "fst (block_setup p buffer st)" and ?st1 = "snd (block_setup p buffer st)"
  from process_Some[OF assms(1)] obtain st2 buf3 frame3 where
    s2: "setPreDelayTime (Fin 0.006) ?st1 = Some st2"
    and ds: "divisions ((bufNumFrames buffer mod 2 ^ 32) div nDivisionFrames)
         ?c st2 (bufChannels buffer) 0 = Some (st', buf3, frame3, tr)"
    and b3: "buffer' = buffer\<lparr>bufChannels := buf3\<rparr>"
    by blast
  have wf1: "wf_state ?st1"
    using assms(2) by (simp add: wf_state_def block_setup_frame)
  from wf_state_setPreDelayTime[OF s2 wf1]
  have wf2: "wf_state st2" and len: "length (mPreDelayBuffer st2) = length (mPreDelayBuffer st)"
    by (simp_all add: block_setup_frame)
  let ?Q = "\<lambda>s (b::flt list list) (f::nat).
              wf_state s \<and> length (mPreDelayBuffer s) = length (mPreDelayBuffer st)"
  have "?Q st' buf3 frame3 \<and> (\<forall>ob \<in> set tr. True)"
  proof (rule divisions_invariant[OF ds, where Q = ?Q and R = "\<lambda>ob. True"])
    show "?Q st2 (bufChannels buffer) 0" using wf2 len by simp
  next
    fix s b f s1 b1 f1 tr1
    assume q: "?Q s b f" and d: "division ?c s b f = Some (s1, b1, f1, tr1)"
    then show "?Q s1 b1 f1 \<and> (\<forall>ob \<in> set tr1. True)"
      using division_wf_state[OF d] by auto
  qed
  then show ?thesis by simp
qed

lemma wf_state_reset: "wf_state st \<Longrightarrow> wf_state (reset st)"
  by (simp add: wf_state_def reset_def zero_buffer_def list_all_iff MaxPreDelayFrames_def
      DefaultPreDelayFrames_def)

lemma reachable_wf_state: "reachable st \<Longrightarrow> wf_state st"
proof (induction rule: reachable.induct)
  case (reachable_initialize sr nch)
  show ?case by (rule wf_state_initialize)
next
  case (reachable_reset st)
  then show ?case by (simp add: wf_state_reset)
next
  case (reachable_process st p buffer st' buffer' tr)
  then show ?case using process_wf_state by blast
qed

lemma to_unsigned_predelay:
  assumes "real sr * 0.006 < 2 ^ 32"
  shows "\<exists>n. to_unsigned (fmul (Fin 0.006) (of_size_t sr)) = Some n"
proof -
  have "- 1 < 0.006 * real sr" by (rule less_le_trans[of _ 0]) simp_all
  then show ?thesis using assms by (simp add: of_size_t_def mult.commute)
qed

text \<open>From every reachable state \<^verbatim>\<open>process\<close> returns, for a buffer whose channels have the
  buffer's number of frames and are not more than the channels of the node, at a sample
  rate whose pre-delay frame count fits \<^verbatim>\<open>unsigned\<close>.\<close>

lemma process_returns_on_reachable:
  assumes "reachable st" "wf_buffer buffer"
    and "length (bufChannels buffer) \<le> length (mPreDelayBuffer st)"
    and "real (sampleRate st) * 0.006 < 2 ^ 32"
  shows "\<exists>st' buffer' tr. process p buffer st = Some (st', buffer', tr)"
proof -
  obtain n where "to_unsigned (fmul (Fin 0.006) (of_size_t (sampleRate st))) = Some n"
    using to_unsigned_predelay[OF assms(4)] by blast
  from process_succeeds[OF reachable_wf_state[OF assms(1)] assms(2,3) this] show ?thesis .
qed

subsection \<open>Reachable states keep the cache of thresholds\<close>

lemma curve_cache_ok_update:
  assumes "curve_cache_ok st"
  shows "curve_cache_ok (snd (snd (updateStaticCurveParameters t k r st)))"
  using assms
  by (simp add: updateStaticCurveParameters_state curve_cache_ok_def recomputed_curve_def Let_def)

lemma curve_cache_ok_same_config:
  "same_config st st' \<Longrightarrow> curve_cache_ok st \<Longrightarrow> curve_cache_ok st'"
  by (simp add: same_config_def curve_cache_ok_def)

lemma setPreDelayTime_same_curve:
  assumes "setPreDelayTime t st = Some st2" "curve_cache_ok st"
  shows "curve_cache_ok st2"
proof -
  obtain n where n: "to_unsigned (fmul t (of_size_t (sampleRate st))) = Some n"
    using assms(1) unfolding setPreDelayTime_def by (auto split: option.splits)
  show ?thesis
    using assms unfolding setPreDelayTime_Some[OF n]
    by (auto simp: curve_cache_ok_def split: if_splits)
qed

lemma process_curve_cache_ok:
  assumes "process p buffer st = Some (st', buffer', tr)" "curve_cache_ok st"
  shows "curve_cache_ok st'"
proof -
  from process_Some[OF assms(1)] obtain st2 buf3 frame3 where
    s2: "setPreDelayTime (Fin 0.006) (snd (block_setup p buffer st)) = Some st2"
    and ds: "divisions ((bufNumFrames buffer mod 2 ^ 32) div nDivisionFrames)
         (fst (block_setup p buffer st)) st2 (bufChannels buffer) 0
         = Some (st', buf3, frame3, tr)"
    and b3: "buffer' = buffer\<lparr>bufChannels := buf3\<rparr>"
    by blast
  have "curve_cache_ok (snd (block_setup p buffer st))"
    using curve_cache_ok_update[OF assms(2)] by (simp add: block_setup_state)
  from setPreDelayTime_same_curve[OF s2 this] divisions_same_config[OF ds]
  show ?thesis by (rule curve_cache_ok_same_config[rotated])
qed

lemma reachable_curve_cache_ok: "reachable st \<Longrightarrow> curve_cache_ok st"
proof (induction rule: reachable.induct)
  case (reachable_initialize sr nch)
  show ?case by (rule curve_cache_ok_initialize)
next
  case (reachable_reset st)
  then show ?case by (simp add: curve_cache_ok_def reset_def)
next
  case (reachable_process st p buffer st' buffer' tr)
  then show ?case using process_curve_cache_ok by blast
qed

end
